theory Spec2Isabelle
  imports Main "HOL-Library.Multiset" "HOL-Library.Word"
begin

section \<open>The consensus cache of \<^verbatim>\<open>src/or/conscache.c\<close>\<close>

text \<open>
  The cache keeps reference-counted entries for labelled documents that a storage
  directory persists. Pointers are addresses into stores that grow by appending, so
  an address is never handed out twice; a freed slot holds \<open>None\<close>. A \<open>NULL\<close>
  pointer is \<open>None\<close> of an option type.
\<close>

subsection \<open>Data\<close>

type_synonym config_line = "string \<times> string"

type_synonym byte = "8 word"

text \<open>
  \<^verbatim>\<open>struct consensus_cache_entry_t\<close>. The field \<^verbatim>\<open>map\<close> is \<open>map_handle\<close> here
  (\<open>map\<close> is the list functional of HOL). The body pointer points into the mapping;
  it is modelled by the address of the mapping it points into. The two \<^verbatim>\<open>int\<close> fields
  are integers: the only arithmetic on them that can leave the range of \<^verbatim>\<open>int\<close> is the
  increment of \<open>incref\<close>, which is a fault at \<^verbatim>\<open>INT_MAX\<close>.
\<close>

record consensus_cache_entry =
  refcnt :: int
  can_remove :: int
  fname :: string
  labels :: "config_line list"
  in_cache :: "nat option"
  map_handle :: "nat option"
  bodylen :: nat
  body :: "nat option"

text \<open>
  Modelled from the spec: the storage directory service (\<^verbatim>\<open>storagedir.h\<close>), which
  "persists labelled blobs to files, lists existing filenames, maps a named file back
  into memory with its labels and body extracted, enforces a maximum entry count".
  A directory is the list of its files by name; a file that cannot be mapped
  ("corrupt/unreadable") is \<open>Unreadable\<close>.
\<close>

datatype stored_file = Unreadable | Labelled "config_line list" "byte list"

record storage_dir =
  contents :: "(string \<times> stored_file) list"
  max_files :: int

text \<open>\<^verbatim>\<open>struct consensus_cache_t\<close>; both fields are pointers and may be \<open>NULL\<close>.\<close>

record consensus_cache =
  dir :: "storage_dir option"
  entries :: "nat list option"

text \<open>
  The memory the cache works on: the allocated entries, the allocated caches, the live
  memory mappings (each with the body bytes it exposes) and the number of \<^verbatim>\<open>BUG()\<close>
  reports made so far.
\<close>

record world =
  entry_heap :: "consensus_cache_entry option list"
  cache_heap :: "consensus_cache option list"
  mmaps :: "byte list option list"
  bugs :: nat

text \<open>
  What stops a call short of its return: a pointer that must not be used, an index
  outside its list, a signed overflow.
\<close>

datatype fault =
  Dangling_entry
  | Dangling_cache
  | Null_storage_dir
  | Null_smartlist
  | Index_out_of_range
  | Refcnt_overflow

definition entry_at :: "world \<Rightarrow> nat \<Rightarrow> consensus_cache_entry option" where
  "entry_at w a = (if a < length (entry_heap w) then entry_heap w ! a else None)"

definition cache_at :: "world \<Rightarrow> nat \<Rightarrow> consensus_cache option" where
  "cache_at w c = (if c < length (cache_heap w) then cache_heap w ! c else None)"

definition mmap_at :: "world \<Rightarrow> nat \<Rightarrow> byte list option" where
  "mmap_at w m = (if m < length (mmaps w) then mmaps w ! m else None)"

definition set_entry :: "world \<Rightarrow> nat \<Rightarrow> consensus_cache_entry option \<Rightarrow> world" where
  "set_entry w a e = w\<lparr>entry_heap := (entry_heap w)[a := e]\<rparr>"

text \<open>
  \<^verbatim>\<open>BUG(cond)\<close> (\<^verbatim>\<open>util_bug.h\<close>) reports a defect when the condition holds and has the
  value of the condition, so that \<^verbatim>\<open>if (BUG(cond)) return;\<close> reports and returns. The
  report is counted in the world.
\<close>

definition tor_bug_occurred :: "world \<Rightarrow> world" where
  "tor_bug_occurred w = w\<lparr>bugs := bugs w + 1\<rparr>"

subsection \<open>Labels\<close>

text \<open>
  Modelled from the spec: \<^verbatim>\<open>config_line_find\<close> (\<^verbatim>\<open>confline.c\<close>), by which
  \<open>get_value\<close> "returns the value of the first label with matching key, or absent if
  none".
\<close>

fun config_line_find :: "config_line list \<Rightarrow> string \<Rightarrow> config_line option" where
  "config_line_find [] key = None"
| "config_line_find (cl # rest) key =
     (if fst cl = key then Some cl else config_line_find rest key)"

definition consensus_cache_entry_get_value ::
  "consensus_cache_entry \<Rightarrow> string \<Rightarrow> string option" where
  "consensus_cache_entry_get_value ent key =
     (case config_line_find (labels ent) key of
        Some match \<Rightarrow> Some (snd match)
      | None \<Rightarrow> None)"

definition consensus_cache_entry_get_labels ::
  "consensus_cache_entry \<Rightarrow> config_line list" where
  "consensus_cache_entry_get_labels ent = labels ent"

subsection \<open>Removing from a list inside a loop over it\<close>

text \<open>
  \<^verbatim>\<open>SMARTLIST_FOREACH_BEGIN\<close> runs an index \<^verbatim>\<open>ent_sl_idx\<close> up to \<^verbatim>\<open>ent_sl_len\<close>, the
  length read once at the start; \<^verbatim>\<open>SMARTLIST_DEL_CURRENT\<close> removes the element at the
  index with \<^verbatim>\<open>smartlist_del\<close> and decrements both, so that the increment of the loop
  looks at the same position again.

  \<^verbatim>\<open>smartlist_del\<close> is the removal of the container library (\<^verbatim>\<open>container.c\<close>): the
  last element of the list moves into the gap, so the list keeps its other elements and
  not their order. (The library's removal that closes the gap is another function,
  \<^verbatim>\<open>smartlist_del_keeporder\<close>, behind another macro; \<^verbatim>\<open>conscache.c\<close> does not use it.)
\<close>

definition smartlist_del :: "'a list \<Rightarrow> nat \<Rightarrow> 'a list" where
  "smartlist_del sl idx = butlast (sl[idx := last sl])"

subsection \<open>Queries\<close>

text \<open>
  The label predicate of \<^verbatim>\<open>consensus_cache_filter_list\<close>: the entry stays. The loop
  reads the list at the index only inside the list (otherwise it is the fault
  \<open>Index_out_of_range\<close>, which a loop from index 0 to the length of the list does not
  meet).
\<close>

definition label_match :: "consensus_cache_entry \<Rightarrow> string \<Rightarrow> string \<Rightarrow> bool" where
  "label_match ent key val =
     (let found_val = consensus_cache_entry_get_value ent key
      in \<not> (found_val = None \<or> Some val \<noteq> found_val))"

function filter_list_loop ::
  "world \<Rightarrow> string \<Rightarrow> string \<Rightarrow> nat list \<Rightarrow> int \<Rightarrow> int \<Rightarrow> fault + nat list" where
  "filter_list_loop w key val lst ent_sl_idx ent_sl_len =
     (if ent_sl_idx < ent_sl_len then
        (if 0 \<le> ent_sl_idx \<and> nat ent_sl_idx < length lst then
           (case entry_at w (lst ! nat ent_sl_idx) of
              None \<Rightarrow> Inl Dangling_entry
            | Some ent \<Rightarrow>
                (if \<not> label_match ent key val
                 then filter_list_loop w key val (smartlist_del lst (nat ent_sl_idx))
                        ((ent_sl_idx - 1) + 1) (ent_sl_len - 1)
                 else filter_list_loop w key val lst (ent_sl_idx + 1) ent_sl_len))
         else Inl Index_out_of_range)
      else Inr lst)"
  by pat_completeness auto
termination
  by (relation "measure (\<lambda>(w, key, val, lst, i, n). nat (n - i))") auto

definition consensus_cache_filter_list ::
  "world \<Rightarrow> nat list option \<Rightarrow> string \<Rightarrow> string \<Rightarrow> fault + (nat list option \<times> world)" where
  "consensus_cache_filter_list w lst key val =
     (case lst of
        None \<Rightarrow> Inr (None, tor_bug_occurred w)
      | Some l \<Rightarrow>
          (case filter_list_loop w key val l 0 (int (length l)) of
             Inl f \<Rightarrow> Inl f
           | Inr l' \<Rightarrow> Inr (Some l', w)))"

definition consensus_cache_find_all ::
  "world \<Rightarrow> nat list \<Rightarrow> nat \<Rightarrow> string \<Rightarrow> string \<Rightarrow> fault + (nat list \<times> world)" where
  "consensus_cache_find_all w out c key val =
     (case cache_at w c of
        None \<Rightarrow> Inl Dangling_cache
      | Some cache \<Rightarrow>
          (case entries cache of
             None \<Rightarrow> Inl Null_smartlist
           | Some es \<Rightarrow>
               (let tmp = [] @ es
                in case consensus_cache_filter_list w (Some tmp) key val of
                     Inl f \<Rightarrow> Inl f
                   | Inr (None, w') \<Rightarrow> Inl Null_smartlist
                   | Inr (Some tmp', w') \<Rightarrow> Inr (out @ tmp', w'))))"

definition consensus_cache_find_first ::
  "world \<Rightarrow> nat \<Rightarrow> string \<Rightarrow> string \<Rightarrow> fault + (nat option \<times> world)" where
  "consensus_cache_find_first w c key val =
     (case consensus_cache_find_all w [] c key val of
        Inl f \<Rightarrow> Inl f
      | Inr (tmp, w') \<Rightarrow>
          Inr (if length tmp \<noteq> 0 then Some (tmp ! 0) else None, w'))"

text \<open>
  What the queries are specified against: the entry is live and \<open>get_value\<close> on it
  gives the value.
\<close>

definition entry_matches :: "world \<Rightarrow> string \<Rightarrow> string \<Rightarrow> nat \<Rightarrow> bool" where
  "entry_matches w key val a =
     (case entry_at w a of
        None \<Rightarrow> False
      | Some ent \<Rightarrow> consensus_cache_entry_get_value ent key = Some val)"

definition all_live :: "world \<Rightarrow> nat list \<Rightarrow> bool" where
  "all_live w lst = list_all (\<lambda>a. entry_at w a \<noteq> None) lst"

subsection \<open>The storage directory\<close>

text \<open>
  Modelled from the spec: \<^verbatim>\<open>storage_dir_list\<close>, the service's
  "list_filenames(handle) -> sequence of filename".
\<close>

definition storage_dir_list :: "storage_dir \<Rightarrow> string list" where
  "storage_dir_list d = map fst (contents d)"

text \<open>
  Modelled from the spec: \<^verbatim>\<open>storage_dir_map_labelled\<close>, the service's
  "map_labelled(handle, filename) -> (labels, body_pointer, body_length,
  mapping_handle) | failure". A success allocates a new mapping that exposes the body;
  a failure ("the file was deleted externally", "corrupt/unreadable") is \<open>None\<close> and
  allocates nothing. The result is (mapping, labels, body pointer, body length).
\<close>

definition storage_dir_map_labelled ::
  "world \<Rightarrow> storage_dir \<Rightarrow> string \<Rightarrow>
   world \<times> (nat \<times> config_line list \<times> nat \<times> nat) option" where
  "storage_dir_map_labelled w d fn =
     (case map_of (contents d) fn of
        Some (Labelled ls bytes) \<Rightarrow>
          (let m = length (mmaps w)
           in (w\<lparr>mmaps := mmaps w @ [Some bytes]\<rparr>, Some (m, ls, m, length bytes)))
      | Some Unreadable \<Rightarrow> (w, None)
      | None \<Rightarrow> (w, None))"

text \<open>Modelled from the spec: \<^verbatim>\<open>tor_munmap_file\<close>, "release_mapping(mapping_handle)".\<close>

definition tor_munmap_file :: "world \<Rightarrow> nat \<Rightarrow> world" where
  "tor_munmap_file w m = w\<lparr>mmaps := (mmaps w)[m := None]\<rparr>"

text \<open>
  Modelled from the spec: a name no file of the directory has, for "a fresh filename".
  It is longer than every name in use.
\<close>

definition fresh_fname :: "string list \<Rightarrow> string" where
  "fresh_fname used = replicate (Suc (foldr max (map length used) 0)) CHR ''0''"

text \<open>
  Modelled from the spec: \<^verbatim>\<open>storage_dir_save_labelled_to_file\<close>, the service's
  "persist_labelled(handle, labels, bytes) -> filename | failure", which "enforces a
  maximum entry count". The result is the return code, the file name written through
  \<^verbatim>\<open>fname_out\<close> and the directory afterwards; a failure leaves the directory as it
  was.
\<close>

definition storage_dir_save_labelled_to_file ::
  "storage_dir \<Rightarrow> config_line list \<Rightarrow> byte list \<Rightarrow> int \<times> string option \<times> storage_dir" where
  "storage_dir_save_labelled_to_file d ls data =
     (if int (length (contents d)) < max_files d then
        (let fn = fresh_fname (storage_dir_list d)
         in (0, Some fn, d\<lparr>contents := contents d @ [(fn, Labelled ls data)]\<rparr>))
      else (- 1, None, d))"

text \<open>
  Modelled from the spec: \<^verbatim>\<open>config_lines_dup\<close>, "a private copy of labels". Labels
  are values here, so the copy is the sequence itself.
\<close>

definition config_lines_dup :: "config_line list \<Rightarrow> config_line list" where
  "config_lines_dup ls = ls"

subsection \<open>Entries\<close>

definition set_cache :: "world \<Rightarrow> nat \<Rightarrow> consensus_cache option \<Rightarrow> world" where
  "set_cache w c x = w\<lparr>cache_heap := (cache_heap w)[c := x]\<rparr>"

text \<open>\<^verbatim>\<open>tor_malloc_zero(sizeof(consensus_cache_entry_t))\<close> with the fields then assigned.\<close>

definition new_entry :: "string \<Rightarrow> config_line list \<Rightarrow> nat \<Rightarrow> consensus_cache_entry" where
  "new_entry fn ls c =
     \<lparr>refcnt = 1, can_remove = 0, fname = fn, labels = ls, in_cache = Some c,
      map_handle = None, bodylen = 0, body = None\<rparr>"

definition INT_MAX :: int where
  "INT_MAX = 2147483647"

definition consensus_cache_entry_incref :: "world \<Rightarrow> nat \<Rightarrow> fault + world" where
  "consensus_cache_entry_incref w a =
     (case entry_at w a of
        None \<Rightarrow> Inl Dangling_entry
      | Some ent \<Rightarrow>
          (if refcnt ent = INT_MAX then Inl Refcnt_overflow
           else Inr (set_entry w a (Some (ent\<lparr>refcnt := refcnt ent + 1\<rparr>)))))"

text \<open>
  Freeing the entry releases its file name and its labels with it: they are fields of
  the value in the freed slot.
\<close>

definition consensus_cache_entry_decref :: "world \<Rightarrow> nat option \<Rightarrow> fault + world" where
  "consensus_cache_entry_decref w ent_ptr =
     (case ent_ptr of
        None \<Rightarrow> Inr w
      | Some a \<Rightarrow>
          (case entry_at w a of
             None \<Rightarrow> Inl Dangling_entry
           | Some ent \<Rightarrow>
               (if refcnt ent \<le> 0 then Inr (tor_bug_occurred w)
                else
                  (let ent1 = ent\<lparr>refcnt := refcnt ent - 1\<rparr>
                   in if refcnt ent1 > 0 then Inr (set_entry w a (Some ent1))
                      else
                        (let w1 = (case map_handle ent1 of
                                     Some m \<Rightarrow> tor_munmap_file w m
                                   | None \<Rightarrow> w)
                         in Inr (set_entry w1 a None))))))"

definition consensus_cache_entry_mark_for_removal :: "world \<Rightarrow> nat \<Rightarrow> fault + world" where
  "consensus_cache_entry_mark_for_removal w a =
     (case entry_at w a of
        None \<Rightarrow> Inl Dangling_entry
      | Some ent \<Rightarrow> Inr (set_entry w a (Some (ent\<lparr>can_remove := 1\<rparr>))))"

text \<open>
  On a failure of the service the entry's \<^verbatim>\<open>map\<close> is assigned \<open>NULL\<close> and the two
  out-parameters \<^verbatim>\<open>body\<close> and \<^verbatim>\<open>bodylen\<close> keep their values.
\<close>

definition consensus_cache_entry_map :: "world \<Rightarrow> nat \<Rightarrow> nat \<Rightarrow> fault + world" where
  "consensus_cache_entry_map w c a =
     (case entry_at w a of
        None \<Rightarrow> Inl Dangling_entry
      | Some ent \<Rightarrow>
          (if map_handle ent \<noteq> None then Inr w
           else
             (case cache_at w c of
                None \<Rightarrow> Inl Dangling_cache
              | Some cache \<Rightarrow>
                  (case dir cache of
                     None \<Rightarrow> Inl Null_storage_dir
                   | Some d \<Rightarrow>
                       (case storage_dir_map_labelled w d (fname ent) of
                          (w1, None) \<Rightarrow>
                            Inr (set_entry w1 a (Some (ent\<lparr>map_handle := None\<rparr>)))
                        | (w1, Some (m, ls, b, n)) \<Rightarrow>
                            Inr (set_entry w1 a
                                   (Some (ent\<lparr>map_handle := Some m, body := Some b,
                                               bodylen := n\<rparr>))))))))"

text \<open>
  The result is \<open>None\<close> for the return value \<open>-1\<close> (nothing is written to the
  out-parameters) and \<open>Some (body, size)\<close> for \<open>0\<close>.
\<close>

definition consensus_cache_entry_get_body ::
  "world \<Rightarrow> nat \<Rightarrow> fault + ((nat option \<times> nat) option \<times> world)" where
  "consensus_cache_entry_get_body w a =
     (case entry_at w a of
        None \<Rightarrow> Inl Dangling_entry
      | Some ent \<Rightarrow>
          (if map_handle ent = None then
             (case in_cache ent of
                None \<Rightarrow> Inr (None, w)
              | Some c \<Rightarrow>
                  (case consensus_cache_entry_map w c a of
                     Inl f \<Rightarrow> Inl f
                   | Inr w1 \<Rightarrow>
                       (case entry_at w1 a of
                          None \<Rightarrow> Inl Dangling_entry
                        | Some ent1 \<Rightarrow>
                            (if map_handle ent1 = None then Inr (None, w1)
                             else Inr (Some (body ent1, bodylen ent1), w1)))))
           else Inr (Some (body ent, bodylen ent), w)))"

text \<open>
  The bytes a caller reads through a body pointer and a size: the first \<open>size\<close> bytes of
  the mapping the pointer points into. A null pointer, a released mapping or a size
  beyond the end of the mapping gives nothing to read.
\<close>

definition body_bytes :: "world \<Rightarrow> nat option \<times> nat \<Rightarrow> byte list option" where
  "body_bytes w r =
     (case fst r of
        None \<Rightarrow> None
      | Some p \<Rightarrow>
          (case mmap_at w p of
             None \<Rightarrow> None
           | Some bs \<Rightarrow> if snd r \<le> length bs then Some (take (snd r) bs) else None))"

subsection \<open>The cache\<close>

fun rescan_loop :: "world \<Rightarrow> nat \<Rightarrow> storage_dir \<Rightarrow> string list \<Rightarrow> fault + world" where
  "rescan_loop w c d [] = Inr w"
| "rescan_loop w c d (fn # fnames) =
     (case storage_dir_map_labelled w d fn of
        (w1, None) \<Rightarrow> rescan_loop w1 c d fnames
      | (w1, Some (m, ls, b, n)) \<Rightarrow>
          (let a = length (entry_heap w1);
               w2 = w1\<lparr>entry_heap := entry_heap w1 @ [Some (new_entry fn ls c)]\<rparr>
           in case cache_at w2 c of
                None \<Rightarrow> Inl Dangling_cache
              | Some cache \<Rightarrow>
                  (case entries cache of
                     None \<Rightarrow> Inl Null_smartlist
                   | Some es \<Rightarrow>
                       rescan_loop
                         (tor_munmap_file
                            (set_cache w2 c (Some (cache\<lparr>entries := Some (es @ [a])\<rparr>))) m)
                         c d fnames)))"

definition consensus_cache_rescan :: "world \<Rightarrow> nat \<Rightarrow> fault + world" where
  "consensus_cache_rescan w c =
     (case cache_at w c of
        None \<Rightarrow> Inl Dangling_cache
      | Some cache \<Rightarrow>
          (let w1 = set_cache w c (Some (cache\<lparr>entries := Some []\<rparr>))
           in case dir cache of
                None \<Rightarrow> Inl Null_storage_dir
              | Some d \<Rightarrow> rescan_loop w1 c d (storage_dir_list d)))"

text \<open>
  \<^verbatim>\<open>get_datadir_fname\<close> and \<^verbatim>\<open>storage_dir_new\<close> belong to the host and to the storage
  directory service ("bind(path, max_entries) -> DirectoryHandle | failure"); they
  are parameters. The returned pointer is \<open>Some\<close> of the new cache: the function has
  no other return.
\<close>

definition consensus_cache_open ::
  "(string \<Rightarrow> string) \<Rightarrow> (string \<Rightarrow> int \<Rightarrow> storage_dir option) \<Rightarrow>
   world \<Rightarrow> string \<Rightarrow> int \<Rightarrow> fault + (nat option \<times> world)" where
  "consensus_cache_open get_datadir_fname storage_dir_new w subdir max_entries =
     (let cache = length (cache_heap w);
          w1 = w\<lparr>cache_heap := cache_heap w @ [Some \<lparr>dir = None, entries = None\<rparr>]\<rparr>;
          directory = get_datadir_fname subdir;
          w2 = set_cache w1 cache
                 (Some \<lparr>dir = storage_dir_new directory max_entries, entries = None\<rparr>)
      in case consensus_cache_rescan w2 cache of
           Inl f \<Rightarrow> Inl f
         | Inr w3 \<Rightarrow> Inr (Some cache, w3))"

text \<open>
  The loop of \<^verbatim>\<open>consensus_cache_free\<close> assigns \<^verbatim>\<open>ent->in_cache\<close> after the
  \<^verbatim>\<open>decref\<close>, whatever the \<^verbatim>\<open>decref\<close> did. When it has freed the entry, the
  assignment writes through a dangling pointer: the fault \<open>Dangling_entry\<close>, as every
  other use of a freed entry.
\<close>

fun free_loop :: "world \<Rightarrow> nat list \<Rightarrow> fault + world" where
  "free_loop w [] = Inr w"
| "free_loop w (a # rest) =
     (case consensus_cache_entry_decref w (Some a) of
        Inl f \<Rightarrow> Inl f
      | Inr w1 \<Rightarrow>
          (case entry_at w1 a of
             None \<Rightarrow> Inl Dangling_entry
           | Some ent \<Rightarrow> free_loop (set_entry w1 a (Some (ent\<lparr>in_cache := None\<rparr>))) rest))"

definition consensus_cache_free :: "world \<Rightarrow> nat option \<Rightarrow> fault + world" where
  "consensus_cache_free w cache_ptr =
     (case cache_ptr of
        None \<Rightarrow> Inr w
      | Some c \<Rightarrow>
          (case cache_at w c of
             None \<Rightarrow> Inl Dangling_cache
           | Some cache \<Rightarrow>
               (case (case entries cache of
                        None \<Rightarrow> Inr w
                      | Some es \<Rightarrow> free_loop w es) of
                  Inl f \<Rightarrow> Inl f
                | Inr w1 \<Rightarrow> Inr (set_cache w1 c None))))"

definition consensus_cache_add ::
  "world \<Rightarrow> nat \<Rightarrow> config_line list \<Rightarrow> byte list \<Rightarrow> fault + (nat option \<times> world)" where
  "consensus_cache_add w c ls data =
     (case cache_at w c of
        None \<Rightarrow> Inl Dangling_cache
      | Some cache \<Rightarrow>
          (case dir cache of
             None \<Rightarrow> Inl Null_storage_dir
           | Some d \<Rightarrow>
               (case storage_dir_save_labelled_to_file d ls data of
                  (r, fn_out, d') \<Rightarrow>
                    (let cache1 = cache\<lparr>dir := Some d'\<rparr>;
                         w1 = set_cache w c (Some cache1)
                     in if r < 0 \<or> fn_out = None then Inr (None, w1)
                        else
                          (case fn_out of
                             None \<Rightarrow> Inr (None, w1)
                           | Some fn \<Rightarrow>
                               (let ent = length (entry_heap w1);
                                    w2 = w1\<lparr>entry_heap := entry_heap w1 @
                                           [Some (new_entry fn (config_lines_dup ls) c)]\<rparr>
                                in case entries cache1 of
                                     None \<Rightarrow> Inl Null_smartlist
                                   | Some es \<Rightarrow>
                                       Inr (Some ent,
                                            set_cache w2 c
                                              (Some (cache1\<lparr>entries :=
                                                       Some (es @ [ent])\<rparr>)))))))))"

subsection \<open>Sequences of calls\<close>

text \<open>
  The calls a host can make, with what it supplies to each: \<open>open\<close> with the host's
  \<^verbatim>\<open>get_datadir_fname\<close> and the service's \<^verbatim>\<open>storage_dir_new\<close>. (\<open>get_value\<close> and
  \<open>get_labels\<close> read an entry and change nothing; they are not steps.)
\<close>

datatype api_call =
  Call_open "string \<Rightarrow> string" "string \<Rightarrow> int \<Rightarrow> storage_dir option" string int
  | Call_free "nat option"
  | Call_add nat "config_line list" "byte list"
  | Call_find_first nat string string
  | Call_find_all "nat list" nat string string
  | Call_filter_list "nat list option" string string
  | Call_incref nat
  | Call_decref "nat option"
  | Call_mark_for_removal nat
  | Call_get_body nat

fun api_step :: "world \<Rightarrow> api_call \<Rightarrow> fault + world" where
  "api_step w (Call_open gd sn subdir n) =
     (case consensus_cache_open gd sn w subdir n of Inl f \<Rightarrow> Inl f | Inr (c, w') \<Rightarrow> Inr w')"
| "api_step w (Call_free c) = consensus_cache_free w c"
| "api_step w (Call_add c ls data) =
     (case consensus_cache_add w c ls data of Inl f \<Rightarrow> Inl f | Inr (a, w') \<Rightarrow> Inr w')"
| "api_step w (Call_find_first c key val) =
     (case consensus_cache_find_first w c key val of
        Inl f \<Rightarrow> Inl f
      | Inr (a, w') \<Rightarrow> Inr w')"
| "api_step w (Call_find_all out c key val) =
     (case consensus_cache_find_all w out c key val of
        Inl f \<Rightarrow> Inl f
      | Inr (found, w') \<Rightarrow> Inr w')"
| "api_step w (Call_filter_list lst key val) =
     (case consensus_cache_filter_list w lst key val of
        Inl f \<Rightarrow> Inl f
      | Inr (lst', w') \<Rightarrow> Inr w')"
| "api_step w (Call_incref a) = consensus_cache_entry_incref w a"
| "api_step w (Call_decref a) = consensus_cache_entry_decref w a"
| "api_step w (Call_mark_for_removal a) = consensus_cache_entry_mark_for_removal w a"
| "api_step w (Call_get_body a) =
     (case consensus_cache_entry_get_body w a of Inl f \<Rightarrow> Inl f | Inr (r, w') \<Rightarrow> Inr w')"

fun run :: "world \<Rightarrow> api_call list \<Rightarrow> fault + world" where
  "run w [] = Inr w"
| "run w (x # xs) = (case api_step w x of Inl f \<Rightarrow> Inl f | Inr w' \<Rightarrow> run w' xs)"

text \<open>
  The invariant of the mappings. An entry without a mapping has a null body pointer.
  An entry with a mapping has its body pointer into that mapping, the mapping is live
  and as long as the body, and no other live entry has the same mapping.
\<close>

definition entry_ok :: "world \<Rightarrow> nat \<Rightarrow> consensus_cache_entry \<Rightarrow> bool" where
  "entry_ok w a e =
     (case map_handle e of
        None \<Rightarrow> body e = None
      | Some m \<Rightarrow>
          body e = Some m \<and>
          (\<exists>bs. mmap_at w m = Some bs \<and> bodylen e = length bs) \<and>
          (\<forall>b eb. entry_at w b = Some eb \<and> map_handle eb = Some m \<longrightarrow> b = a))"

definition world_ok :: "world \<Rightarrow> bool" where
  "world_ok w = (\<forall>a e. entry_at w a = Some e \<longrightarrow> entry_ok w a e)"

text \<open>
  How a later world relates to an earlier one: addresses stay allocated, a freed entry
  does not come back, and an entry that is still live has kept its file name and labels
  and, once mapped, its mapping, its body pointer and length, and the bytes there.
\<close>

definition evolves :: "world \<Rightarrow> world \<Rightarrow> bool" where
  "evolves w w' =
     (length (entry_heap w) \<le> length (entry_heap w') \<and>
      (\<forall>a e'. a < length (entry_heap w) \<and> entry_at w' a = Some e' \<longrightarrow>
         (\<exists>e. entry_at w a = Some e \<and> fname e' = fname e \<and> labels e' = labels e \<and>
            (\<forall>m. map_handle e = Some m \<longrightarrow>
               map_handle e' = Some m \<and> body e' = body e \<and> bodylen e' = bodylen e \<and>
               mmap_at w' m = mmap_at w m))))"

text \<open>
  What a rescan is specified to find: of the listed files, those that map, each with its
  labels, in the order of the listing.
\<close>

fun readable :: "storage_dir \<Rightarrow> string list \<Rightarrow> (string \<times> config_line list) list" where
  "readable d [] = []"
| "readable d (fn # fnames) =
     (case map_of (contents d) fn of
        Some (Labelled ls bs) \<Rightarrow> (fn, ls) # readable d fnames
      | Some Unreadable \<Rightarrow> readable d fnames
      | None \<Rightarrow> readable d fnames)"

text \<open>The world after a rescan of the cache \<open>c\<close> has added the entries for those files.\<close>

definition rescanned ::
  "world \<Rightarrow> nat \<Rightarrow> consensus_cache \<Rightarrow> nat list \<Rightarrow> (string \<times> config_line list) list \<Rightarrow> world" where
  "rescanned w c cache es files =
     w\<lparr>entry_heap := entry_heap w @ map (\<lambda>(fn, ls). Some (new_entry fn ls c)) files,
       cache_heap := (cache_heap w)
         [c := Some (cache\<lparr>entries :=
                 Some (es @ [length (entry_heap w) ..<
                              length (entry_heap w) + length files])\<rparr>)],
       mmaps := mmaps w @ replicate (length files) None\<rparr>"

definition empty_world :: world where
  "empty_world = \<lparr>entry_heap = [], cache_heap = [], mmaps = [], bugs = 0\<rparr>"

subsection \<open>A cache of three documents\<close>

definition example_dir :: storage_dir where
  "example_dir =
     \<lparr>contents =
        [(''0'', Labelled [(''type'', ''consensus''), (''flavor'', ''ns'')] [1, 2, 3]),
         (''1'', Labelled [(''type'', ''consensus''), (''flavor'', ''microdesc'')] [4, 5]),
         (''2'', Labelled [(''flavor'', ''ns''), (''flavor'', ''microdesc'')] [6])],
      max_files = 3\<rparr>"

definition example_world :: world where
  "example_world =
     \<lparr>entry_heap =
        [Some (new_entry ''0'' [(''type'', ''consensus''), (''flavor'', ''ns'')] 0),
         Some (new_entry ''1'' [(''type'', ''consensus''), (''flavor'', ''microdesc'')] 0),
         Some (new_entry ''2'' [(''flavor'', ''ns''), (''flavor'', ''microdesc'')] 0)],
      cache_heap = [Some \<lparr>dir = Some example_dir, entries = Some [0, 1, 2]\<rparr>],
      mmaps = [None, None, None],
      bugs = 0\<rparr>"

text \<open>A host whose data directory is \<^verbatim>\<open>data/\<close>, and two storage services.\<close>

definition example_datadir_fname :: "string \<Rightarrow> string" where
  "example_datadir_fname sub = ''data/'' @ sub"

definition binding_example_dir :: "string \<Rightarrow> int \<Rightarrow> storage_dir option" where
  "binding_example_dir path n = Some (example_dir\<lparr>max_files := n\<rparr>)"

definition binding_nothing :: "string \<Rightarrow> int \<Rightarrow> storage_dir option" where
  "binding_nothing path n = None"

text \<open>
  The same documents in a directory with room for two more. The caller holds a
  reference to the first entry, whose body is mapped, and to the second, whose body is
  not; the third entry is held by the cache alone. A fourth entry, in no cache, has
  lost all its references.
\<close>

definition roomy_dir :: storage_dir where
  "roomy_dir = example_dir\<lparr>max_files := 5\<rparr>"

definition held_world :: world where
  "held_world =
     \<lparr>entry_heap =
        [Some ((new_entry ''0'' [(''type'', ''consensus''), (''flavor'', ''ns'')] 0)
                 \<lparr>refcnt := 2, map_handle := Some 0, bodylen := 3, body := Some 0\<rparr>),
         Some ((new_entry ''1'' [(''type'', ''consensus''), (''flavor'', ''microdesc'')] 0)
                 \<lparr>refcnt := 2\<rparr>),
         Some (new_entry ''2'' [(''flavor'', ''ns''), (''flavor'', ''microdesc'')] 0),
         Some ((new_entry ''3'' [] 0)\<lparr>refcnt := 0, in_cache := None\<rparr>)],
      cache_heap = [Some \<lparr>dir = Some roomy_dir, entries = Some [0, 1, 2]\<rparr>],
      mmaps = [Some [1, 2, 3]],
      bugs = 0\<rparr>"

text \<open>That world after the caller has read the body of the second entry.\<close>

definition mapped_world :: world where
  "mapped_world =
     \<lparr>entry_heap =
        [Some ((new_entry ''0'' [(''type'', ''consensus''), (''flavor'', ''ns'')] 0)
                 \<lparr>refcnt := 2, map_handle := Some 0, bodylen := 3, body := Some 0\<rparr>),
         Some ((new_entry ''1'' [(''type'', ''consensus''), (''flavor'', ''microdesc'')] 0)
                 \<lparr>refcnt := 2, map_handle := Some 1, bodylen := 2, body := Some 1\<rparr>),
         Some (new_entry ''2'' [(''flavor'', ''ns''), (''flavor'', ''microdesc'')] 0),
         Some ((new_entry ''3'' [] 0)\<lparr>refcnt := 0, in_cache := None\<rparr>)],
      cache_heap = [Some \<lparr>dir = Some roomy_dir, entries = Some [0, 1, 2]\<rparr>],
      mmaps = [Some [1, 2, 3], Some [4, 5]],
      bugs = 0\<rparr>"

text \<open>That directory after one more document has been persisted, as a restart finds it.\<close>

definition restarted_dir :: storage_dir where
  "restarted_dir =
     roomy_dir\<lparr>contents := contents roomy_dir @
       [(''00'', Labelled [(''type'', ''consensus''), (''flavor'', ''ns'')] [7, 8])]\<rparr>"

definition binding_restarted_dir :: "string \<Rightarrow> int \<Rightarrow> storage_dir option" where
  "binding_restarted_dir path n = Some restarted_dir"

text \<open>
  A cache of three documents whose first does not have the flavor the other two have,
  as \<open>open\<close> builds it from their directory.
\<close>

definition flavors_dir :: storage_dir where
  "flavors_dir =
     \<lparr>contents =
        [(''0'', Labelled [(''flavor'', ''microdesc'')] [1]),
         (''1'', Labelled [(''flavor'', ''ns'')] [2]),
         (''2'', Labelled [(''flavor'', ''ns'')] [3])],
      max_files = 3\<rparr>"

definition binding_flavors_dir :: "string \<Rightarrow> int \<Rightarrow> storage_dir option" where
  "binding_flavors_dir path n = Some flavors_dir"

definition flavors_world :: world where
  "flavors_world =
     \<lparr>entry_heap =
        [Some (new_entry ''0'' [(''flavor'', ''microdesc'')] 0),
         Some (new_entry ''1'' [(''flavor'', ''ns'')] 0),
         Some (new_entry ''2'' [(''flavor'', ''ns'')] 0)],
      cache_heap = [Some \<lparr>dir = Some flavors_dir, entries = Some [0, 1, 2]\<rparr>],
      mmaps = [None, None, None],
      bugs = 0\<rparr>"

section \<open>Properties\<close>

subsection \<open>The loop of the filter\<close>

lemma label_match_iff:
  "label_match ent key val \<longleftrightarrow> consensus_cache_entry_get_value ent key = Some val"
  by (auto simp: label_match_def Let_def)

lemma all_live_nth: "all_live w lst \<Longrightarrow> k < length lst \<Longrightarrow> \<exists>ent. entry_at w (lst ! k) = Some ent"
  by (auto simp: all_live_def list_all_length)

lemma smartlist_del_members:
  assumes i: "idx < length sl"
  shows "take idx (smartlist_del sl idx) = take idx sl"
    and "length (smartlist_del sl idx) = length sl - 1"
    and "mset (drop idx (smartlist_del sl idx)) = mset (drop (Suc idx) sl)"
proof -
  show "take idx (smartlist_del sl idx) = take idx sl"
    using i by (simp add: smartlist_del_def take_butlast)
  show "length (smartlist_del sl idx) = length sl - 1"
    by (simp add: smartlist_del_def)
  show "mset (drop idx (smartlist_del sl idx)) = mset (drop (Suc idx) sl)"
  proof (cases "Suc idx = length sl")
    case True
    then show ?thesis by (simp add: smartlist_del_def drop_butlast butlast_conv_take)
  next
    case False
    then have lt: "Suc idx < length sl" using i by simp
    have "drop idx (butlast (sl[idx := last sl])) = butlast (drop idx (sl[idx := last sl]))"
      by (simp add: drop_butlast)
    also have "drop idx (sl[idx := last sl]) = last sl # drop (Suc idx) sl"
      using i by (simp add: upd_conv_take_nth_drop)
    also have "butlast (last sl # drop (Suc idx) sl) = last sl # butlast (drop (Suc idx) sl)"
      using lt by simp
    also have "mset \<dots> = mset (butlast (drop (Suc idx) sl) @ [last (drop (Suc idx) sl)])"
      using lt by simp
    also have "\<dots> = mset (drop (Suc idx) sl)"
      using lt by (subst append_butlast_last_id) simp_all
    finally show ?thesis by (simp add: smartlist_del_def)
  qed
qed

lemma smartlist_del_set:
  assumes "k < length lst"
  shows "set (smartlist_del lst k) \<subseteq> set lst"
proof -
  note d = smartlist_del_members [OF assms]
  have "set (smartlist_del lst k) =
          set (take k (smartlist_del lst k)) \<union> set (drop k (smartlist_del lst k))"
    by (subst append_take_drop_id [of k "smartlist_del lst k", symmetric])
      (simp only: set_append)
  also have "set (drop k (smartlist_del lst k)) = set (drop (Suc k) lst)"
    using arg_cong [OF d(3), of set_mset] by simp
  finally show ?thesis
    using d(1) by (auto dest: in_set_takeD in_set_dropD)
qed

text \<open>
  From the index \<open>k\<close> the loop leaves the entries before \<open>k\<close> where they are and
  keeps, of the others, exactly those that match, in some order.
\<close>

lemma filter_list_loop_keeps_members:
  "all_live w lst \<Longrightarrow> k \<le> length lst \<Longrightarrow>
   \<exists>r. filter_list_loop w key val lst (int k) (int (length lst)) = Inr r \<and>
       take k r = take k lst \<and>
       mset (drop k r) = mset (filter (entry_matches w key val) (drop k lst))"
proof (induction "length lst - k" arbitrary: lst k rule: less_induct)
  case less
  show ?case
  proof (cases "k < length lst")
    case False
    with less.prems show ?thesis by simp
  next
    case True
    from all_live_nth [OF less.prems(1) True] obtain ent
      where ent: "entry_at w (lst ! k) = Some ent" by blast
    have dk: "drop k lst = lst ! k # drop (Suc k) lst"
      using True by (simp add: Cons_nth_drop_Suc)
    show ?thesis
    proof (cases "label_match ent key val")
      case True
      have m: "entry_matches w key val (lst ! k)"
        using ent True by (simp add: entry_matches_def label_match_iff)
      have "\<exists>r. filter_list_loop w key val lst (int (Suc k)) (int (length lst)) = Inr r \<and>
             take (Suc k) r = take (Suc k) lst \<and>
             mset (drop (Suc k) r) = mset (filter (entry_matches w key val) (drop (Suc k) lst))"
        using \<open>k < length lst\<close> less.prems by (intro less.hyps) auto
      then obtain r where r: "filter_list_loop w key val lst (int (Suc k)) (int (length lst)) = Inr r"
        "take (Suc k) r = take (Suc k) lst"
        "mset (drop (Suc k) r) = mset (filter (entry_matches w key val) (drop (Suc k) lst))"
        by blast
      have lr: "k < length r"
        using arg_cong [OF r(2), of length] \<open>k < length lst\<close> by simp
      have tk: "take k r = take k lst"
        using arg_cong [OF r(2), of "take k"] by (simp add: min_def)
      have rk: "r ! k = lst ! k"
        using arg_cong [OF r(2), of "\<lambda>xs. xs ! k"] by simp
      have "drop k r = r ! k # drop (Suc k) r"
        using lr by (simp add: Cons_nth_drop_Suc)
      then have "mset (drop k r) = mset (filter (entry_matches w key val) (drop k lst))"
        using r(3) rk m dk by simp
      moreover have "filter_list_loop w key val lst (int k) (int (length lst)) = Inr r"
        using \<open>k < length lst\<close> ent True r(1)
        by (subst filter_list_loop.simps) (simp add: add.commute)
      ultimately show ?thesis using tk by blast
    next
      case False
      have m: "\<not> entry_matches w key val (lst ! k)"
        using ent False by (simp add: entry_matches_def label_match_iff)
      let ?l = "smartlist_del lst k"
      note d = smartlist_del_members [OF \<open>k < length lst\<close>]
      have t: "take k ?l = take k lst"
        and len: "length ?l = length lst - 1"
        and ms: "mset (drop k ?l) = mset (drop (Suc k) lst)"
        using d by simp_all
      have live: "all_live w ?l"
        using smartlist_del_set [OF \<open>k < length lst\<close>] less.prems(1)
        by (auto simp: all_live_def list_all_iff)
      have "\<exists>r. filter_list_loop w key val ?l (int k) (int (length ?l)) = Inr r \<and>
             take k r = take k ?l \<and>
             mset (drop k r) = mset (filter (entry_matches w key val) (drop k ?l))"
        using \<open>k < length lst\<close> live len by (intro less.hyps) auto
      then obtain r where r: "filter_list_loop w key val ?l (int k) (int (length ?l)) = Inr r"
        "take k r = take k ?l"
        "mset (drop k r) = mset (filter (entry_matches w key val) (drop k ?l))"
        by blast
      have "mset (filter (entry_matches w key val) (drop k ?l)) =
            mset (filter (entry_matches w key val) (drop (Suc k) lst))"
        using arg_cong [OF ms, of "filter_mset (entry_matches w key val)"] by simp
      then have "mset (drop k r) = mset (filter (entry_matches w key val) (drop k lst))"
        using r(3) dk m by simp
      moreover have "int (length ?l) = int (length lst) - 1"
        using \<open>k < length lst\<close> len by simp
      then have "filter_list_loop w key val lst (int k) (int (length lst)) = Inr r"
        using \<open>k < length lst\<close> ent False r(1)
        by (subst filter_list_loop.simps) simp
      ultimately show ?thesis using r(2) t by auto
    qed
  qed
qed

subsection \<open>Queries by label\<close>

lemma filter_list_keeps_members:
  assumes "all_live w lst"
  shows "\<exists>r. consensus_cache_filter_list w (Some lst) key val = Inr (Some r, w) \<and>
             mset r = mset (filter (entry_matches w key val) lst)"
  using filter_list_loop_keeps_members [OF assms, of 0 key val]
  by (auto simp: consensus_cache_filter_list_def)

lemma find_all_members:
  assumes "cache_at w c = Some cache" and "entries cache = Some es" and "all_live w es"
  shows "\<exists>found. consensus_cache_find_all w out c key val = Inr (out @ found, w) \<and>
           consensus_cache_find_all w [] c key val = Inr (found, w) \<and>
           mset found = mset (filter (entry_matches w key val) es)"
proof -
  from filter_list_keeps_members [OF assms(3), of key val] obtain r where
    "consensus_cache_filter_list w (Some es) key val = Inr (Some r, w)"
    "mset r = mset (filter (entry_matches w key val) es)" by blast
  then show ?thesis
    using assms(1,2) by (simp add: consensus_cache_find_all_def)
qed

lemma filter_list_head:
  assumes live: "all_live w lst" and ne: "lst \<noteq> []"
    and m: "entry_matches w key val (lst ! 0)"
  shows "\<exists>r. consensus_cache_filter_list w (Some lst) key val = Inr (Some r, w) \<and>
             r \<noteq> [] \<and> r ! 0 = lst ! 0"
proof -
  have len: "0 < length lst" using ne by simp
  from all_live_nth [OF live len] obtain ent where ent: "entry_at w (lst ! 0) = Some ent"
    by blast
  have lm: "label_match ent key val"
    using m ent by (simp add: entry_matches_def label_match_iff)
  have "Suc 0 \<le> length lst" using len by (rule Suc_leI)
  from filter_list_loop_keeps_members [OF live this, of key val] obtain r where
    r: "filter_list_loop w key val lst (int (Suc 0)) (int (length lst)) = Inr r"
    "take (Suc 0) r = take (Suc 0) lst"
    by blast
  have l0: "filter_list_loop w key val lst 0 (int (length lst)) = Inr r"
    using len ent lm r(1) by (subst filter_list_loop.simps) simp
  have "length (take (Suc 0) r) = length (take (Suc 0) lst)" using r(2) by simp
  then have rne: "r \<noteq> []" using len by auto
  have "take (Suc 0) r ! 0 = take (Suc 0) lst ! 0" using r(2) by simp
  then have "r ! 0 = lst ! 0" by simp
  with l0 rne show ?thesis by (simp add: consensus_cache_filter_list_def)
qed

lemma example_live: "all_live example_world [0, 1, 2]"
  by (simp add: all_live_def entry_at_def example_world_def)

lemma example_cache:
  "cache_at example_world 0 = Some \<lparr>dir = Some example_dir, entries = Some [0, 1, 2]\<rparr>"
  by (simp add: cache_at_def example_world_def)

lemma example_matches_ns:
  "entry_matches example_world ''flavor'' ''ns'' 0"
  "\<not> entry_matches example_world ''flavor'' ''ns'' 1"
  "entry_matches example_world ''flavor'' ''ns'' 2"
  by (simp_all add: entry_matches_def entry_at_def example_world_def new_entry_def
      consensus_cache_entry_get_value_def)

lemma example_matches_microdesc:
  "\<not> entry_matches example_world ''flavor'' ''microdesc'' 0"
  "entry_matches example_world ''flavor'' ''microdesc'' 1"
  "\<not> entry_matches example_world ''flavor'' ''microdesc'' 2"
  by (simp_all add: entry_matches_def entry_at_def example_world_def new_entry_def
      consensus_cache_entry_get_value_def)

lemma config_line_find_map_of:
  "config_line_find ls key = (case map_of ls key of None \<Rightarrow> None | Some v \<Rightarrow> Some (key, v))"
  by (induction ls) (auto split: option.splits)

lemma get_value_map_of:
  "consensus_cache_entry_get_value ent key = map_of (labels ent) key"
  by (simp add: consensus_cache_entry_get_value_def config_line_find_map_of split: option.splits)

lemma map_of_first_index:
  "map_of xs k = Some v \<longleftrightarrow>
     (\<exists>i<length xs. xs ! i = (k, v) \<and> (\<forall>j<i. fst (xs ! j) \<noteq> k))"
proof (induction xs)
  case Nil
  show ?case by simp
next
  case (Cons x xs)
  show ?case
  proof (cases "fst x = k")
    case True
    have "(\<exists>i<length (x # xs). (x # xs) ! i = (k, v) \<and> (\<forall>j<i. fst ((x # xs) ! j) \<noteq> k))
            \<longleftrightarrow> x = (k, v)"
    proof
      assume "\<exists>i<length (x # xs). (x # xs) ! i = (k, v) \<and> (\<forall>j<i. fst ((x # xs) ! j) \<noteq> k)"
      then obtain i where i: "(x # xs) ! i = (k, v)" "\<forall>j<i. fst ((x # xs) ! j) \<noteq> k" by blast
      have "i = 0"
      proof (rule ccontr)
        assume "i \<noteq> 0"
        then have "fst ((x # xs) ! 0) \<noteq> k" using i(2) by blast
        then show False using True by simp
      qed
      then show "x = (k, v)" using i(1) by simp
    next
      assume "x = (k, v)"
      then have "(x # xs) ! 0 = (k, v) \<and> (\<forall>j<0. fst ((x # xs) ! j) \<noteq> k)" by simp
      then show "\<exists>i<length (x # xs). (x # xs) ! i = (k, v) \<and> (\<forall>j<i. fst ((x # xs) ! j) \<noteq> k)"
        by (intro exI [of _ 0]) simp
    qed
    then show ?thesis using True by (cases x) auto
  next
    case False
    have "(\<exists>i<length (x # xs). (x # xs) ! i = (k, v) \<and> (\<forall>j<i. fst ((x # xs) ! j) \<noteq> k))
            \<longleftrightarrow> (\<exists>i<length xs. xs ! i = (k, v) \<and> (\<forall>j<i. fst (xs ! j) \<noteq> k))"
    proof
      assume "\<exists>i<length (x # xs). (x # xs) ! i = (k, v) \<and> (\<forall>j<i. fst ((x # xs) ! j) \<noteq> k)"
      then obtain i where i: "i < length (x # xs)" "(x # xs) ! i = (k, v)"
        "\<forall>j<i. fst ((x # xs) ! j) \<noteq> k" by blast
      have "i \<noteq> 0" using i(2) False by (cases i) auto
      then obtain i' where i': "i = Suc i'" by (cases i) auto
      have "\<forall>j<i'. fst (xs ! j) \<noteq> k"
      proof (intro allI impI)
        fix j assume "j < i'"
        then have "Suc j < i" using i' by simp
        then have "fst ((x # xs) ! Suc j) \<noteq> k" using i(3) by blast
        then show "fst (xs ! j) \<noteq> k" by simp
      qed
      then show "\<exists>i<length xs. xs ! i = (k, v) \<and> (\<forall>j<i. fst (xs ! j) \<noteq> k)"
        using i(1,2) i' by (intro exI [of _ i']) simp
    next
      assume "\<exists>i<length xs. xs ! i = (k, v) \<and> (\<forall>j<i. fst (xs ! j) \<noteq> k)"
      then obtain i where i: "i < length xs" "xs ! i = (k, v)" "\<forall>j<i. fst (xs ! j) \<noteq> k"
        by blast
      have "\<forall>j<Suc i. fst ((x # xs) ! j) \<noteq> k"
      proof (intro allI impI)
        fix j assume "j < Suc i"
        then show "fst ((x # xs) ! j) \<noteq> k" using False i(3) by (cases j) auto
      qed
      then show "\<exists>i<length (x # xs). (x # xs) ! i = (k, v) \<and> (\<forall>j<i. fst ((x # xs) ! j) \<noteq> k)"
        using i(1,2) by (intro exI [of _ "Suc i"]) simp
    qed
    then show ?thesis using False Cons.IH by (cases x) auto
  qed
qed

lemma entry_matches_first_label:
  "entry_matches w key val a \<longleftrightarrow>
     (\<exists>ent i. entry_at w a = Some ent \<and> i < length (labels ent) \<and>
        labels ent ! i = (key, val) \<and> (\<forall>j<i. fst (labels ent ! j) \<noteq> key))"
  by (cases "entry_at w a") (auto simp: entry_matches_def get_value_map_of map_of_first_index)

lemma example_entry_at:
  "entry_at example_world 0 =
     Some (new_entry ''0'' [(''type'', ''consensus''), (''flavor'', ''ns'')] 0)"
  "entry_at example_world 1 =
     Some (new_entry ''1'' [(''type'', ''consensus''), (''flavor'', ''microdesc'')] 0)"
  "entry_at example_world (Suc 0) =
     Some (new_entry ''1'' [(''type'', ''consensus''), (''flavor'', ''microdesc'')] 0)"
  "entry_at example_world 2 =
     Some (new_entry ''2'' [(''flavor'', ''ns''), (''flavor'', ''microdesc'')] 0)"
  by (simp_all add: entry_at_def example_world_def)

lemma example_label_match:
  "label_match (new_entry ''0'' [(''type'', ''consensus''), (''flavor'', ''ns'')] 0)
     ''flavor'' val \<longleftrightarrow> val = ''ns''"
  "label_match (new_entry ''1'' [(''type'', ''consensus''), (''flavor'', ''microdesc'')] 0)
     ''flavor'' val \<longleftrightarrow> val = ''microdesc''"
  "label_match (new_entry ''2'' [(''flavor'', ''ns''), (''flavor'', ''microdesc'')] 0)
     ''flavor'' val \<longleftrightarrow> val = ''ns''"
  by (auto simp: label_match_iff consensus_cache_entry_get_value_def new_entry_def)

lemma example_filter_ns:
  "filter (entry_matches example_world ''flavor'' ''ns'') [0, 1, 2] = [0, 2]"
  using example_matches_ns by simp

lemma example_filter_microdesc:
  "filter (entry_matches example_world ''flavor'' ''microdesc'') [0, 1, 2] = [1]"
  using example_matches_microdesc by simp

lemma example_filter_none:
  "filter (entry_matches example_world ''flavor'' ''full'') [0, 1, 2] = []"
  by (simp add: entry_matches_def entry_at_def example_world_def new_entry_def
      consensus_cache_entry_get_value_def)

lemma example_entries:
  "entries \<lparr>dir = Some example_dir, entries = Some [0, 1, 2]\<rparr> = Some [0, 1, 2]"
  by simp

lemma mset_filter_set:
  assumes "mset found = mset (filter P es)"
  shows "a \<in> set found \<longleftrightarrow> a \<in> set es \<and> P a"
proof -
  have "set found = set (filter P es)"
    using arg_cong [OF assms, of set_mset] by simp
  then show ?thesis by auto
qed

lemma flavors_cache:
  "cache_at flavors_world 0 = Some \<lparr>dir = Some flavors_dir, entries = Some [0, 1, 2]\<rparr>"
  by (simp add: cache_at_def flavors_world_def)

lemma flavors_entry_at:
  "entry_at flavors_world 0 = Some (new_entry ''0'' [(''flavor'', ''microdesc'')] 0)"
  "entry_at flavors_world 1 = Some (new_entry ''1'' [(''flavor'', ''ns'')] 0)"
  "entry_at flavors_world (Suc 0) = Some (new_entry ''1'' [(''flavor'', ''ns'')] 0)"
  "entry_at flavors_world 2 = Some (new_entry ''2'' [(''flavor'', ''ns'')] 0)"
  by (simp_all add: entry_at_def flavors_world_def)

lemma flavors_label_match:
  "label_match (new_entry ''0'' [(''flavor'', ''microdesc'')] 0) ''flavor'' val \<longleftrightarrow>
     val = ''microdesc''"
  "label_match (new_entry ''1'' [(''flavor'', ''ns'')] 0) ''flavor'' val \<longleftrightarrow> val = ''ns''"
  "label_match (new_entry ''2'' [(''flavor'', ''ns'')] 0) ''flavor'' val \<longleftrightarrow> val = ''ns''"
  by (auto simp: label_match_iff consensus_cache_entry_get_value_def new_entry_def)

lemma flavors_matches_ns:
  "\<not> entry_matches flavors_world ''flavor'' ''ns'' 0"
  "entry_matches flavors_world ''flavor'' ''ns'' 1"
  "entry_matches flavors_world ''flavor'' ''ns'' 2"
  by (simp_all add: entry_matches_def entry_at_def flavors_world_def new_entry_def
      consensus_cache_entry_get_value_def)

lemma flavors_filter_ns:
  "filter (entry_matches flavors_world ''flavor'' ''ns'') [0, 1, 2] = [1, 2]"
  using flavors_matches_ns by simp

lemma flavors_find_all_ns:
  "consensus_cache_find_all flavors_world out 0 ''flavor'' ''ns'' =
     Inr (out @ [2, 1], flavors_world)"
  by (simp add: consensus_cache_find_all_def consensus_cache_filter_list_def
      flavors_cache smartlist_del_def flavors_entry_at flavors_label_match)

lemma flavors_find_first_ns:
  "consensus_cache_find_first flavors_world 0 ''flavor'' ''ns'' = Inr (Some 2, flavors_world)"
  using flavors_find_all_ns [of "[]"] by (simp add: consensus_cache_find_first_def)

lemma example_find_all_microdesc:
  "consensus_cache_find_all example_world out 0 ''flavor'' ''microdesc'' =
     Inr (out @ [1], example_world)"
  by (simp add: consensus_cache_find_all_def consensus_cache_filter_list_def
      example_cache smartlist_del_def example_entry_at example_label_match)

lemma example_filter_list_ns:
  "consensus_cache_filter_list example_world (Some [1, 0, 2]) ''flavor'' ''ns'' =
     Inr (Some [2, 0], example_world)"
  by (simp add: consensus_cache_filter_list_def smartlist_del_def
      example_entry_at example_label_match)

lemma example_filter_ns_102:
  "filter (entry_matches example_world ''flavor'' ''ns'') [1, 0, 2] = [0, 2]"
  using example_matches_ns by simp

text \<open>
  Claim C5, as amended. For every list of live entries, \<open>filter_list\<close> removes exactly
  the entries that do not match the label predicate: the entries that stay are the
  matching entries of the list, each as often as before. When the members of the list
  are entries of a cache, they are the members that \<open>find_all\<close> finds in that cache:
  the result has the entries of the list restricted to the matches of \<open>find_all\<close>. The
  order of the entries that stay is some order, not the original one in general.
\<close>

theorem filter_list_removes_exactly_the_nonmatching:
  assumes "all_live w lst"
  shows "\<exists>r. consensus_cache_filter_list w (Some lst) key val = Inr (Some r, w) \<and>
           mset r = mset (filter (entry_matches w key val) lst) \<and>
           (\<forall>c cache es.
              cache_at w c = Some cache \<and> entries cache = Some es \<and> all_live w es \<and>
              set lst \<subseteq> set es \<longrightarrow>
              (\<exists>found. consensus_cache_find_all w [] c key val = Inr (found, w) \<and>
                 mset r = mset (filter (\<lambda>a. a \<in> set found) lst)))"
proof -
  from filter_list_keeps_members [OF assms, of key val] obtain r where
    r: "consensus_cache_filter_list w (Some lst) key val = Inr (Some r, w)"
    and m: "mset r = mset (filter (entry_matches w key val) lst)" by blast
  have c: "\<exists>found. consensus_cache_find_all w [] c key val = Inr (found, w) \<and>
                 mset r = mset (filter (\<lambda>a. a \<in> set found) lst)"
    if h: "cache_at w c = Some cache \<and> entries cache = Some es \<and> all_live w es \<and>
           set lst \<subseteq> set es" for c cache es
  proof -
    from h find_all_members [of w c cache es "[]" key val] obtain found where
      f: "consensus_cache_find_all w [] c key val = Inr (found, w)"
      and fm: "mset found = mset (filter (entry_matches w key val) es)" by blast
    have e: "filter (\<lambda>a. a \<in> set found) lst = filter (entry_matches w key val) lst"
      using h mset_filter_set [OF fm] by (intro filter_cong) auto
    have "mset r = mset (filter (\<lambda>a. a \<in> set found) lst)"
      using m by (simp only: e)
    with f show ?thesis by blast
  qed
  show ?thesis
    apply (rule exI [of _ r])
    apply (intro conjI allI impI)
      apply (rule r)
     apply (rule m)
    apply (erule c)
    done
qed

theorem filter_list_removes_exactly_the_nonmatching_witness:
  "all_live example_world [1, 0, 2] \<and>
   cache_at example_world 0 = Some \<lparr>dir = Some example_dir, entries = Some [0, 1, 2]\<rparr> \<and>
   all_live example_world [0, 1, 2] \<and> set [1, 0, 2 :: nat] \<subseteq> set [0, 1, 2] \<and>
   (\<exists>r found.
      consensus_cache_filter_list example_world (Some [1, 0, 2]) ''flavor'' ''ns'' =
        Inr (Some r, example_world) \<and>
      mset r = mset [0, 2] \<and>
      consensus_cache_find_all example_world [] 0 ''flavor'' ''ns'' =
        Inr (found, example_world) \<and>
      mset r = mset (filter (\<lambda>a. a \<in> set found) [1, 0, 2]))"
proof -
  have l: "all_live example_world [1, 0, 2]"
    by (simp add: all_live_def entry_at_def example_world_def)
  have s: "set [1, 0, 2 :: nat] \<subseteq> set [0, 1, 2]" by simp
  from filter_list_removes_exactly_the_nonmatching [OF l, of "''flavor''" "''ns''"]
  obtain r where
    r: "consensus_cache_filter_list example_world (Some [1, 0, 2]) ''flavor'' ''ns'' =
          Inr (Some r, example_world)"
    and m: "mset r = mset (filter (entry_matches example_world ''flavor'' ''ns'') [1, 0, 2])"
    and c: "\<forall>c cache es.
              cache_at example_world c = Some cache \<and> entries cache = Some es \<and>
              all_live example_world es \<and> set [1, 0, 2] \<subseteq> set es \<longrightarrow>
              (\<exists>found. consensus_cache_find_all example_world [] c ''flavor'' ''ns'' =
                   Inr (found, example_world) \<and>
                 mset r = mset (filter (\<lambda>a. a \<in> set found) [1, 0, 2]))"
    by blast
  have m': "mset r = mset [0, 2]" using m by (simp only: example_filter_ns_102)
  have h: "cache_at example_world 0 = Some \<lparr>dir = Some example_dir, entries = Some [0, 1, 2]\<rparr> \<and>
           entries \<lparr>dir = Some example_dir, entries = Some [0, 1, 2]\<rparr> = Some [0, 1, 2] \<and>
           all_live example_world [0, 1, 2] \<and> set [1, 0, 2 :: nat] \<subseteq> set [0, 1, 2]"
    using example_cache example_live by simp
  from c [rule_format, OF h] obtain found where
    f: "consensus_cache_find_all example_world [] 0 ''flavor'' ''ns'' =
          Inr (found, example_world)"
      "mset r = mset (filter (\<lambda>a. a \<in> set found) [1, 0, 2])"
    by blast
  show ?thesis
    using l example_cache example_live s r m' f by blast
qed

text \<open>
  The claim as stated, with the original relative order kept, fails on the list of the
  second, first and third entry of the example cache: the first and the third match,
  and the result has the third before the first.
\<close>

theorem filter_list_order_counterexample:
  "consensus_cache_filter_list example_world (Some [1, 0, 2]) ''flavor'' ''ns'' =
     Inr (Some [2, 0], example_world) \<and>
   filter (entry_matches example_world ''flavor'' ''ns'') [1, 0, 2] = [0, 2]"
  using example_filter_list_ns example_filter_ns_102 by simp

text \<open>
  Claim C3, as amended. \<open>find_all\<close> returns exactly the entries of the cache for which
  the first label with that key carries exactly that value (a label with that key and
  value at a position before which no label has the key), each as often as the cache
  lists it. They come in some order, not the index order in general.
\<close>

theorem find_all_first_label_with_key:
  assumes "cache_at w c = Some cache" and "entries cache = Some es" and "all_live w es"
  shows "\<exists>found. consensus_cache_find_all w [] c key val = Inr (found, w) \<and>
           mset found = mset (filter (entry_matches w key val) es) \<and>
           (\<forall>a. a \<in> set found \<longleftrightarrow>
              a \<in> set es \<and>
              (\<exists>ent i. entry_at w a = Some ent \<and> i < length (labels ent) \<and>
                 labels ent ! i = (key, val) \<and>
                 (\<forall>j<i. fst (labels ent ! j) \<noteq> key)))"
proof -
  from find_all_members [OF assms, of "[]" key val] obtain found where
    1: "consensus_cache_find_all w [] c key val = Inr (found, w)"
    and m: "mset found = mset (filter (entry_matches w key val) es)" by auto
  have 3: "\<forall>a. a \<in> set found \<longleftrightarrow>
              a \<in> set es \<and>
              (\<exists>ent i. entry_at w a = Some ent \<and> i < length (labels ent) \<and>
                 labels ent ! i = (key, val) \<and> (\<forall>j<i. fst (labels ent ! j) \<noteq> key))"
    using mset_filter_set [OF m] entry_matches_first_label [of w key val] by simp
  show ?thesis
    using 1 m 3 by (intro exI [of _ found] conjI)
qed

theorem find_all_first_label_with_key_witness:
  "cache_at example_world 0 = Some \<lparr>dir = Some example_dir, entries = Some [0, 1, 2]\<rparr> \<and>
   all_live example_world [0, 1, 2] \<and>
   (\<exists>found. consensus_cache_find_all example_world [] 0 ''flavor'' ''microdesc'' =
        Inr (found, example_world) \<and>
      mset found = mset [1] \<and> 2 \<notin> set found)"
proof -
  from find_all_first_label_with_key
    [OF example_cache example_entries example_live, of "''flavor''" "''microdesc''"]
  obtain found where f:
    "consensus_cache_find_all example_world [] 0 ''flavor'' ''microdesc'' =
       Inr (found, example_world)"
    "mset found = mset (filter (entry_matches example_world ''flavor'' ''microdesc'') [0, 1, 2])"
    by blast
  have m: "mset found = mset [1]" using f(2) by (simp only: example_filter_microdesc)
  then have "set found = set [1]" using arg_cong [OF m, of set_mset] by simp
  then have "2 \<notin> set found" by simp
  with f(1) m show ?thesis
    using example_cache example_live by blast
qed

text \<open>
  The claim as stated fails twice. The third document of the example cache carries the
  label flavor=microdesc after a label flavor=ns, and \<open>find_all\<close> for flavor=microdesc
  does not return it. In the cache whose first document alone does not have the flavor
  ns, \<open>find_all\<close> for flavor=ns returns the third entry before the second.
\<close>

theorem find_all_any_label_counterexample:
  "cache_at example_world 0 = Some \<lparr>dir = Some example_dir, entries = Some [0, 1, 2]\<rparr> \<and>
   consensus_cache_find_all example_world [] 0 ''flavor'' ''microdesc'' =
     Inr ([1], example_world) \<and>
   entry_at example_world 2 =
     Some (new_entry ''2'' [(''flavor'', ''ns''), (''flavor'', ''microdesc'')] 0) \<and>
   (''flavor'', ''microdesc'') \<in>
     set (labels (new_entry ''2'' [(''flavor'', ''ns''), (''flavor'', ''microdesc'')] 0)) \<and>
   cache_at flavors_world 0 = Some \<lparr>dir = Some flavors_dir, entries = Some [0, 1, 2]\<rparr> \<and>
   consensus_cache_find_all flavors_world [] 0 ''flavor'' ''ns'' =
     Inr ([2, 1], flavors_world)"
proof -
  have 1: "consensus_cache_find_all example_world [] 0 ''flavor'' ''microdesc'' =
     Inr ([1], example_world)"
    using example_find_all_microdesc [of "[]"] by simp
  have 3: "entry_at example_world 2 =
     Some (new_entry ''2'' [(''flavor'', ''ns''), (''flavor'', ''microdesc'')] 0)"
    by (simp add: entry_at_def example_world_def)
  have 4: "(''flavor'', ''microdesc'') \<in>
     set (labels (new_entry ''2'' [(''flavor'', ''ns''), (''flavor'', ''microdesc'')] 0))"
    by (simp add: new_entry_def)
  have 5: "consensus_cache_find_all flavors_world [] 0 ''flavor'' ''ns'' =
     Inr ([2, 1], flavors_world)"
    using flavors_find_all_ns [of "[]"] by simp
  show ?thesis using 1 3 4 5 example_cache flavors_cache by blast
qed

text \<open>
  Claim C4, as amended. The result of \<open>find_first\<close> is the first element of the result
  of \<open>find_all\<close>, and no entry when that result is empty. It is no entry exactly when
  no entry of the cache has the value under the key (by \<open>get_value\<close>), and otherwise an
  entry of the cache that has; it is the entry at index 0 when that entry has the
  value, and not the matching entry with the lowest index in general.
\<close>

theorem find_first_is_head_of_find_all:
  assumes "cache_at w c = Some cache" and "entries cache = Some es" and "all_live w es"
  shows "\<exists>r found.
           consensus_cache_find_first w c key val = Inr (r, w) \<and>
           consensus_cache_find_all w [] c key val = Inr (found, w) \<and>
           r = (case found of [] \<Rightarrow> None | a # _ \<Rightarrow> Some a) \<and>
           (r = None \<longleftrightarrow> \<not> (\<exists>a. a \<in> set es \<and> entry_matches w key val a)) \<and>
           (\<forall>a. r = Some a \<longrightarrow> a \<in> set es \<and> entry_matches w key val a) \<and>
           (es \<noteq> [] \<and> entry_matches w key val (es ! 0) \<longrightarrow> r = Some (es ! 0))"
proof -
  let ?P = "entry_matches w key val"
  from find_all_members [OF assms, of "[]" key val] obtain found where
    1: "consensus_cache_find_all w [] c key val = Inr (found, w)"
    and m: "mset found = mset (filter ?P es)" by auto
  let ?r = "case found of [] \<Rightarrow> None | a # _ \<Rightarrow> Some a"
  note mem = mset_filter_set [OF m]
  have 2: "consensus_cache_find_first w c key val = Inr (?r, w)"
    using 1 by (cases found) (auto simp: consensus_cache_find_first_def)
  have 4: "?r = None \<longleftrightarrow> \<not> (\<exists>a. a \<in> set es \<and> ?P a)"
  proof (cases found)
    case Nil
    then show ?thesis using mem by simp
  next
    case (Cons x xs)
    then have "x \<in> set found" by simp
    then show ?thesis using mem Cons by auto
  qed
  have 5: "\<forall>a. ?r = Some a \<longrightarrow> a \<in> set es \<and> ?P a"
  proof (cases found)
    case Nil
    then show ?thesis by simp
  next
    case (Cons x xs)
    then have "x \<in> set found" by simp
    then show ?thesis using mem Cons by auto
  qed
  have 6: "es \<noteq> [] \<and> ?P (es ! 0) \<longrightarrow> ?r = Some (es ! 0)"
  proof
    assume h: "es \<noteq> [] \<and> ?P (es ! 0)"
    from filter_list_head [OF assms(3), of key val] h obtain r where
      r: "consensus_cache_filter_list w (Some es) key val = Inr (Some r, w)"
      "r \<noteq> []" "r ! 0 = es ! 0" by blast
    have "consensus_cache_find_all w [] c key val = Inr (r, w)"
      using r(1) assms(1,2) by (simp add: consensus_cache_find_all_def)
    with 1 have "found = r" by simp
    then show "?r = Some (es ! 0)"
      using r(2,3) by (cases r) auto
  qed
  show ?thesis
    apply (rule exI [of _ ?r])
    apply (rule exI [of _ found])
    apply (intro conjI)
         apply (rule 2)
        apply (rule 1)
       apply (rule refl)
      apply (rule 4)
     apply (rule 5)
    apply (rule 6)
    done
qed

theorem find_first_is_head_of_find_all_witness:
  "cache_at example_world 0 = Some \<lparr>dir = Some example_dir, entries = Some [0, 1, 2]\<rparr> \<and>
   all_live example_world [0, 1, 2] \<and>
   entry_matches example_world ''flavor'' ''ns'' ([0, 1, 2] ! 0) \<and>
   consensus_cache_find_first example_world 0 ''flavor'' ''ns'' = Inr (Some 0, example_world) \<and>
   consensus_cache_find_first example_world 0 ''flavor'' ''full'' = Inr (None, example_world)"
proof -
  note t = find_first_is_head_of_find_all [OF example_cache example_entries example_live]
  have m0: "entry_matches example_world ''flavor'' ''ns'' ([0, 1, 2] ! 0)"
    using example_matches_ns(1) by simp
  from t [of "''flavor''" "''ns''"] obtain r where
    r: "consensus_cache_find_first example_world 0 ''flavor'' ''ns'' = Inr (r, example_world)"
    and h: "[0, 1, 2 :: nat] \<noteq> [] \<and>
            entry_matches example_world ''flavor'' ''ns'' ([0, 1, 2] ! 0) \<longrightarrow>
            r = Some ([0, 1, 2] ! 0)"
    by blast
  from h m0 have "r = Some 0" by simp
  with r have 1: "consensus_cache_find_first example_world 0 ''flavor'' ''ns'' =
                    Inr (Some 0, example_world)" by simp
  from t [of "''flavor''" "''full''"] obtain r' where
    r': "consensus_cache_find_first example_world 0 ''flavor'' ''full'' =
           Inr (r', example_world)"
    and n: "r' = None \<longleftrightarrow>
            \<not> (\<exists>a. a \<in> set [0, 1, 2] \<and> entry_matches example_world ''flavor'' ''full'' a)"
    by (elim exE conjE) (rule that)
  have "\<forall>a\<in>set [0, 1, 2]. \<not> entry_matches example_world ''flavor'' ''full'' a"
    using example_filter_none by (simp only: filter_empty_conv)
  then have "\<not> (\<exists>a. a \<in> set [0, 1, 2] \<and> entry_matches example_world ''flavor'' ''full'' a)"
    by blast
  with n have "r' = None" by simp
  with r' have 2: "consensus_cache_find_first example_world 0 ''flavor'' ''full'' =
                     Inr (None, example_world)" by simp
  show ?thesis using example_cache example_live m0 1 2 by blast
qed

text \<open>
  The claim as stated, with the lowest index, fails in the cache whose first document
  alone does not have the flavor ns: the second and the third entry match, and
  \<open>find_first\<close> returns the third.
\<close>

theorem find_first_lowest_index_counterexample:
  "cache_at flavors_world 0 = Some \<lparr>dir = Some flavors_dir, entries = Some [0, 1, 2]\<rparr> \<and>
   entry_matches flavors_world ''flavor'' ''ns'' ([0, 1, 2] ! 1) \<and>
   [0, 1, 2] ! 2 = (2 :: nat) \<and>
   consensus_cache_find_first flavors_world 0 ''flavor'' ''ns'' = Inr (Some 2, flavors_world)"
  using flavors_cache flavors_matches_ns(2) flavors_find_first_ns by simp

text \<open>
  Claim C10, as amended. \<open>find_all\<close> appends to the output list it is given and does
  not clear it: the list afterwards is its previous contents, each element in place,
  followed by the matching entries, which are those a call with an empty output list
  returns. The appended entries come in some order, not the index order in general.
\<close>

theorem find_all_appends_to_out:
  assumes "cache_at w c = Some cache" and "entries cache = Some es" and "all_live w es"
  shows "\<exists>found. consensus_cache_find_all w out c key val = Inr (out @ found, w) \<and>
           consensus_cache_find_all w [] c key val = Inr (found, w) \<and>
           mset found = mset (filter (entry_matches w key val) es)"
  using assms by (rule find_all_members)

theorem find_all_appends_to_out_witness:
  "cache_at example_world 0 = Some \<lparr>dir = Some example_dir, entries = Some [0, 1, 2]\<rparr> \<and>
   all_live example_world [0, 1, 2] \<and>
   (\<exists>found. consensus_cache_find_all example_world [1, 1, 7] 0 ''flavor'' ''ns'' =
        Inr ([1, 1, 7] @ found, example_world) \<and>
      mset found = mset [0, 2])"
proof -
  from find_all_appends_to_out
    [OF example_cache example_entries example_live, of "[1, 1, 7]" "''flavor''" "''ns''"]
  obtain found where
    f: "consensus_cache_find_all example_world [1, 1, 7] 0 ''flavor'' ''ns'' =
          Inr ([1, 1, 7] @ found, example_world)"
    and m: "mset found = mset (filter (entry_matches example_world ''flavor'' ''ns'') [0, 1, 2])"
    by blast
  have "mset found = mset [0, 2]" using m by (simp only: example_filter_ns)
  with f show ?thesis using example_cache example_live by blast
qed

text \<open>
  The claim as stated, with the matches in index order, fails in the cache whose first
  document alone does not have the flavor ns: the third entry is appended before the
  second.
\<close>

theorem find_all_index_order_counterexample:
  "cache_at flavors_world 0 = Some \<lparr>dir = Some flavors_dir, entries = Some [0, 1, 2]\<rparr> \<and>
   filter (entry_matches flavors_world ''flavor'' ''ns'') [0, 1, 2] = [1, 2] \<and>
   consensus_cache_find_all flavors_world [7] 0 ''flavor'' ''ns'' =
     Inr ([7, 2, 1], flavors_world)"
  using flavors_cache flavors_filter_ns flavors_find_all_ns [of "[7]"] by simp

subsection \<open>Reference counts\<close>

lemma entry_at_set_entry:
  "entry_at (set_entry w a x) b =
     (if b = a \<and> a < length (entry_heap w) then x else entry_at w b)"
  by (auto simp: entry_at_def set_entry_def)

lemma entry_at_live_lt: "entry_at w a = Some e \<Longrightarrow> a < length (entry_heap w)"
  by (auto simp: entry_at_def split: if_splits)

lemma mmap_at_munmap:
  "mmap_at (tor_munmap_file w m) k = (if k = m then None else mmap_at w k)"
  by (auto simp: mmap_at_def tor_munmap_file_def)

lemma held_entry_at:
  "entry_at held_world 0 =
     Some ((new_entry ''0'' [(''type'', ''consensus''), (''flavor'', ''ns'')] 0)
             \<lparr>refcnt := 2, map_handle := Some 0, bodylen := 3, body := Some 0\<rparr>)"
  "entry_at held_world 1 =
     Some ((new_entry ''1'' [(''type'', ''consensus''), (''flavor'', ''microdesc'')] 0)
             \<lparr>refcnt := 2\<rparr>)"
  "entry_at held_world 2 =
     Some (new_entry ''2'' [(''flavor'', ''ns''), (''flavor'', ''microdesc'')] 0)"
  "entry_at held_world 3 = Some ((new_entry ''3'' [] 0)\<lparr>refcnt := 0, in_cache := None\<rparr>)"
  by (simp_all add: entry_at_def held_world_def)

lemma held_cache:
  "cache_at held_world 0 = Some \<lparr>dir = Some roomy_dir, entries = Some [0, 1, 2]\<rparr>"
  by (simp add: cache_at_def held_world_def)

text \<open>
  Claim C1. A \<open>decref\<close> of an entry whose reference count is zero (or less) is a
  defect that is reported: \<^verbatim>\<open>BUG()\<close> records it and the call returns with the entry,
  its count and every mapping as they were, so the count never goes below zero. When
  the count is positive, \<open>decref\<close> decrements it by exactly one, and exactly when it
  reaches zero the mapping, if present, is released and the entry with its file name
  and labels is freed; no other entry changes.
\<close>

theorem decref_reports_or_decrements:
  assumes "entry_at w a = Some ent"
  shows "(refcnt ent \<le> 0 \<longrightarrow>
            consensus_cache_entry_decref w (Some a) = Inr (tor_bug_occurred w) \<and>
            bugs (tor_bug_occurred w) = bugs w + 1 \<and>
            entry_heap (tor_bug_occurred w) = entry_heap w \<and>
            mmaps (tor_bug_occurred w) = mmaps w) \<and>
         (1 < refcnt ent \<longrightarrow>
            consensus_cache_entry_decref w (Some a) =
              Inr (set_entry w a (Some (ent\<lparr>refcnt := refcnt ent - 1\<rparr>)))) \<and>
         (refcnt ent = 1 \<longrightarrow>
            (\<exists>w'. consensus_cache_entry_decref w (Some a) = Inr w' \<and>
               entry_at w' a = None \<and>
               (\<forall>b. b \<noteq> a \<longrightarrow> entry_at w' b = entry_at w b) \<and>
               (\<forall>m. mmap_at w' m = (if map_handle ent = Some m then None else mmap_at w m)) \<and>
               bugs w' = bugs w \<and> cache_heap w' = cache_heap w)) \<and>
         (\<forall>w' ent'. consensus_cache_entry_decref w (Some a) = Inr w' \<and>
            entry_at w' a = Some ent' \<and> 0 \<le> refcnt ent \<longrightarrow>
            0 \<le> refcnt ent' \<and> (0 < refcnt ent \<longrightarrow> refcnt ent' = refcnt ent - 1))"
proof (intro conjI impI allI)
  assume "refcnt ent \<le> 0"
  then show "consensus_cache_entry_decref w (Some a) = Inr (tor_bug_occurred w)"
    using assms by (simp add: consensus_cache_entry_decref_def)
next
  show "bugs (tor_bug_occurred w) = bugs w + 1" by (simp add: tor_bug_occurred_def)
next
  show "entry_heap (tor_bug_occurred w) = entry_heap w" by (simp add: tor_bug_occurred_def)
next
  show "mmaps (tor_bug_occurred w) = mmaps w" by (simp add: tor_bug_occurred_def)
next
  assume "1 < refcnt ent"
  then show "consensus_cache_entry_decref w (Some a) =
               Inr (set_entry w a (Some (ent\<lparr>refcnt := refcnt ent - 1\<rparr>)))"
    using assms by (simp add: consensus_cache_entry_decref_def Let_def)
next
  assume one: "refcnt ent = 1"
  let ?w1 = "case map_handle ent of Some m \<Rightarrow> tor_munmap_file w m | None \<Rightarrow> w"
  let ?w' = "set_entry ?w1 a None"
  have d: "consensus_cache_entry_decref w (Some a) = Inr ?w'"
    using assms one by (simp add: consensus_cache_entry_decref_def Let_def)
  have lt: "a < length (entry_heap w)" using assms by (rule entry_at_live_lt)
  have h: "entry_heap ?w1 = entry_heap w"
    by (simp add: tor_munmap_file_def split: option.splits)
  have e1: "entry_at ?w1 = entry_at w"
    by (rule ext) (simp add: entry_at_def h)
  have 1: "entry_at ?w' a = None"
    using lt h by (simp add: entry_at_set_entry)
  have 2: "\<forall>b. b \<noteq> a \<longrightarrow> entry_at ?w' b = entry_at w b"
    by (simp add: entry_at_set_entry e1)
  have 3: "\<forall>m. mmap_at ?w' m = (if map_handle ent = Some m then None else mmap_at w m)"
    by (cases "map_handle ent")
      (auto simp: mmap_at_def set_entry_def tor_munmap_file_def)
  have 4: "bugs ?w' = bugs w \<and> cache_heap ?w' = cache_heap w"
    by (cases "map_handle ent") (simp_all add: set_entry_def tor_munmap_file_def)
  show "\<exists>w'. consensus_cache_entry_decref w (Some a) = Inr w' \<and>
               entry_at w' a = None \<and>
               (\<forall>b. b \<noteq> a \<longrightarrow> entry_at w' b = entry_at w b) \<and>
               (\<forall>m. mmap_at w' m = (if map_handle ent = Some m then None else mmap_at w m)) \<and>
               bugs w' = bugs w \<and> cache_heap w' = cache_heap w"
    using d 1 2 3 4 by (intro exI [of _ ?w']) simp
next
  fix w' ent'
  assume h: "consensus_cache_entry_decref w (Some a) = Inr w' \<and>
            entry_at w' a = Some ent' \<and> 0 \<le> refcnt ent"
  have lt: "a < length (entry_heap w)" using assms by (rule entry_at_live_lt)
  show "0 \<le> refcnt ent'"
    using h assms lt
    by (auto simp: consensus_cache_entry_decref_def Let_def entry_at_set_entry
        tor_bug_occurred_def entry_at_def tor_munmap_file_def set_entry_def
        split: if_splits option.splits)
  assume "0 < refcnt ent"
  then show "refcnt ent' = refcnt ent - 1"
    using h assms lt
    by (auto simp: consensus_cache_entry_decref_def Let_def entry_at_set_entry
        tor_bug_occurred_def entry_at_def tor_munmap_file_def set_entry_def
        split: if_splits option.splits)
qed

theorem decref_reports_or_decrements_witness:
  "entry_at held_world 3 = Some ((new_entry ''3'' [] 0)\<lparr>refcnt := 0, in_cache := None\<rparr>) \<and>
   consensus_cache_entry_decref held_world (Some 3) = Inr (tor_bug_occurred held_world) \<and>
   bugs (tor_bug_occurred held_world) = 1 \<and>
   consensus_cache_entry_decref held_world (Some 0) =
     Inr (set_entry held_world 0
            (Some ((new_entry ''0'' [(''type'', ''consensus''), (''flavor'', ''ns'')] 0)
                     \<lparr>refcnt := 1, map_handle := Some 0, bodylen := 3, body := Some 0\<rparr>))) \<and>
   (\<exists>w'. consensus_cache_entry_decref held_world (Some 2) = Inr w' \<and>
      entry_at w' 2 = None \<and> entry_at w' 0 = entry_at held_world 0)"
proof -
  have 1: "consensus_cache_entry_decref held_world (Some 3) = Inr (tor_bug_occurred held_world) \<and>
           bugs (tor_bug_occurred held_world) = 1"
    using decref_reports_or_decrements [OF held_entry_at(4)]
    by (simp add: new_entry_def held_world_def)
  have 2: "consensus_cache_entry_decref held_world (Some 0) =
     Inr (set_entry held_world 0
            (Some ((new_entry ''0'' [(''type'', ''consensus''), (''flavor'', ''ns'')] 0)
                     \<lparr>refcnt := 1, map_handle := Some 0, bodylen := 3, body := Some 0\<rparr>)))"
    using decref_reports_or_decrements [OF held_entry_at(1)]
    by (simp add: new_entry_def)
  have 3: "\<exists>w'. consensus_cache_entry_decref held_world (Some 2) = Inr w' \<and>
      entry_at w' 2 = None \<and> entry_at w' 0 = entry_at held_world 0"
    using decref_reports_or_decrements [OF held_entry_at(3)]
    by (auto simp: new_entry_def)
  show ?thesis using held_entry_at(4) 1 2 3 by blast
qed

subsection \<open>Adding a document\<close>

lemma cache_at_live_lt: "cache_at w c = Some x \<Longrightarrow> c < length (cache_heap w)"
  by (auto simp: cache_at_def split: if_splits)

lemma set_cache_same:
  assumes "cache_at w c = Some cache"
  shows "set_cache w c (Some cache) = w"
proof -
  have "cache_heap w ! c = Some cache" "c < length (cache_heap w)"
    using assms by (auto simp: cache_at_def split: if_splits)
  then have "(cache_heap w)[c := Some cache] = cache_heap w"
    by (metis list_update_id)
  then show ?thesis by (simp add: set_cache_def)
qed

lemma cache_at_set_cache:
  "cache_at (set_cache w c x) c' =
     (if c' = c \<and> c < length (cache_heap w) then x else cache_at w c')"
  by (auto simp: cache_at_def set_cache_def)

lemma save_failure_keeps_dir:
  assumes "storage_dir_save_labelled_to_file d ls data = (r, fn_out, d')"
    and "r < 0 \<or> fn_out = None"
  shows "d' = d"
  using assms by (auto simp: storage_dir_save_labelled_to_file_def Let_def split: if_splits)

lemma example_save_fails:
  "storage_dir_save_labelled_to_file example_dir ls data = (- 1, None, example_dir)"
  by (simp add: storage_dir_save_labelled_to_file_def example_dir_def)

lemma roomy_save:
  "storage_dir_save_labelled_to_file roomy_dir ls data =
     (0, Some ''00'', roomy_dir\<lparr>contents := contents roomy_dir @ [(''00'', Labelled ls data)]\<rparr>)"
  by (simp add: storage_dir_save_labelled_to_file_def roomy_dir_def example_dir_def
      storage_dir_list_def fresh_fname_def Let_def)

text \<open>
  Claim C7. When the service fails to persist the document (a negative return code or
  no file name), \<open>add\<close> returns no entry and the world is unchanged: no entry is
  created and the list of entries is untouched. When it succeeds, \<open>add\<close> returns a new
  entry with reference count 1, the labels supplied and the file name assigned, unmapped
  and owned by the cache, appended at the end of the list of entries; nothing else
  changes.
\<close>

theorem add_fails_unchanged_or_appends_entry:
  assumes "cache_at w c = Some cache" and "dir cache = Some d" and "entries cache = Some es"
    and "storage_dir_save_labelled_to_file d ls data = (r, fn_out, d')"
  shows "(r < 0 \<or> fn_out = None \<longrightarrow> consensus_cache_add w c ls data = Inr (None, w)) \<and>
         (\<not> (r < 0 \<or> fn_out = None) \<longrightarrow>
            (\<exists>fn w'. fn_out = Some fn \<and>
               consensus_cache_add w c ls data = Inr (Some (length (entry_heap w)), w') \<and>
               entry_at w (length (entry_heap w)) = None \<and>
               entry_at w' (length (entry_heap w)) =
                 Some \<lparr>refcnt = 1, can_remove = 0, fname = fn, labels = ls,
                       in_cache = Some c, map_handle = None, bodylen = 0, body = None\<rparr> \<and>
               cache_at w' c =
                 Some \<lparr>dir = Some d', entries = Some (es @ [length (entry_heap w)])\<rparr> \<and>
               (\<forall>b. b \<noteq> length (entry_heap w) \<longrightarrow> entry_at w' b = entry_at w b) \<and>
               (\<forall>c'. c' \<noteq> c \<longrightarrow> cache_at w' c' = cache_at w c') \<and>
               mmaps w' = mmaps w \<and> bugs w' = bugs w))"
proof (intro conjI impI)
  assume f: "r < 0 \<or> fn_out = None"
  have d: "d' = d" using save_failure_keeps_dir [OF assms(4) f] .
  have "cache\<lparr>dir := Some d\<rparr> = cache" using assms(2) by simp
  then have "set_cache w c (Some (cache\<lparr>dir := Some d\<rparr>)) = w"
    using set_cache_same [OF assms(1)] by (simp only:)
  then show "consensus_cache_add w c ls data = Inr (None, w)"
    using assms f d by (simp add: consensus_cache_add_def Let_def)
next
  assume s: "\<not> (r < 0 \<or> fn_out = None)"
  then obtain fn where fn: "fn_out = Some fn" by auto
  let ?a = "length (entry_heap w)"
  let ?cache1 = "cache\<lparr>dir := Some d'\<rparr>"
  let ?w1 = "set_cache w c (Some ?cache1)"
  let ?w2 = "?w1\<lparr>entry_heap := entry_heap ?w1 @ [Some (new_entry fn (config_lines_dup ls) c)]\<rparr>"
  let ?w' = "set_cache ?w2 c (Some (?cache1\<lparr>entries := Some (es @ [?a])\<rparr>))"
  have lt: "c < length (cache_heap w)" using assms(1) by (rule cache_at_live_lt)
  have h1: "entry_heap ?w1 = entry_heap w" by (simp add: set_cache_def)
  have add: "consensus_cache_add w c ls data = Inr (Some ?a, ?w')"
    using assms s fn by (simp add: consensus_cache_add_def Let_def h1)
  have 1: "entry_at w ?a = None" by (simp add: entry_at_def)
  have 2: "entry_at ?w' ?a =
             Some \<lparr>refcnt = 1, can_remove = 0, fname = fn, labels = ls,
                   in_cache = Some c, map_handle = None, bodylen = 0, body = None\<rparr>"
    by (simp add: entry_at_def set_cache_def new_entry_def config_lines_dup_def)
  have 3: "cache_at ?w' c = Some \<lparr>dir = Some d', entries = Some (es @ [?a])\<rparr>"
    using lt assms(3) by (simp add: cache_at_def set_cache_def)
  have 4: "\<forall>b. b \<noteq> ?a \<longrightarrow> entry_at ?w' b = entry_at w b"
    by (auto simp: entry_at_def set_cache_def nth_append)
  have 5: "\<forall>c'. c' \<noteq> c \<longrightarrow> cache_at ?w' c' = cache_at w c'"
    by (auto simp: cache_at_def set_cache_def)
  have 6: "mmaps ?w' = mmaps w \<and> bugs ?w' = bugs w"
    by (simp add: set_cache_def)
  show "\<exists>fn w'. fn_out = Some fn \<and>
               consensus_cache_add w c ls data = Inr (Some (length (entry_heap w)), w') \<and>
               entry_at w (length (entry_heap w)) = None \<and>
               entry_at w' (length (entry_heap w)) =
                 Some \<lparr>refcnt = 1, can_remove = 0, fname = fn, labels = ls,
                       in_cache = Some c, map_handle = None, bodylen = 0, body = None\<rparr> \<and>
               cache_at w' c =
                 Some \<lparr>dir = Some d', entries = Some (es @ [length (entry_heap w)])\<rparr> \<and>
               (\<forall>b. b \<noteq> length (entry_heap w) \<longrightarrow> entry_at w' b = entry_at w b) \<and>
               (\<forall>c'. c' \<noteq> c \<longrightarrow> cache_at w' c' = cache_at w c') \<and>
               mmaps w' = mmaps w \<and> bugs w' = bugs w"
    using fn add 1 2 3 4 5 6 by (intro exI [of _ fn] exI [of _ ?w']) blast
qed

theorem add_fails_unchanged_or_appends_entry_witness:
  "cache_at example_world 0 = Some \<lparr>dir = Some example_dir, entries = Some [0, 1, 2]\<rparr> \<and>
   storage_dir_save_labelled_to_file example_dir [(''flavor'', ''ns'')] [7] =
     (- 1, None, example_dir) \<and>
   consensus_cache_add example_world 0 [(''flavor'', ''ns'')] [7] = Inr (None, example_world) \<and>
   cache_at held_world 0 = Some \<lparr>dir = Some roomy_dir, entries = Some [0, 1, 2]\<rparr> \<and>
   (\<exists>w'. consensus_cache_add held_world 0 [(''flavor'', ''ns'')] [7] = Inr (Some 4, w') \<and>
      entry_at w' 4 =
        Some \<lparr>refcnt = 1, can_remove = 0, fname = ''00'', labels = [(''flavor'', ''ns'')],
              in_cache = Some 0, map_handle = None, bodylen = 0, body = None\<rparr> \<and>
      cache_at w' 0 =
        Some \<lparr>dir = Some (roomy_dir\<lparr>contents := contents roomy_dir @
                              [(''00'', Labelled [(''flavor'', ''ns'')] [7])]\<rparr>),
              entries = Some [0, 1, 2, 4]\<rparr>)"
proof -
  have 1: "consensus_cache_add example_world 0 [(''flavor'', ''ns'')] [7] =
             Inr (None, example_world)"
    using add_fails_unchanged_or_appends_entry
      [OF example_cache _ _ example_save_fails, of "[0, 1, 2]" "[(''flavor'', ''ns'')]" "[7]"]
    by simp
  have len: "length (entry_heap held_world) = 4" by (simp add: held_world_def)
  have 2: "\<exists>w'. consensus_cache_add held_world 0 [(''flavor'', ''ns'')] [7] = Inr (Some 4, w') \<and>
      entry_at w' 4 =
        Some \<lparr>refcnt = 1, can_remove = 0, fname = ''00'', labels = [(''flavor'', ''ns'')],
              in_cache = Some 0, map_handle = None, bodylen = 0, body = None\<rparr> \<and>
      cache_at w' 0 =
        Some \<lparr>dir = Some (roomy_dir\<lparr>contents := contents roomy_dir @
                              [(''00'', Labelled [(''flavor'', ''ns'')] [7])]\<rparr>),
              entries = Some [0, 1, 2, 4]\<rparr>"
    using add_fails_unchanged_or_appends_entry
      [OF held_cache _ _ roomy_save, of "[0, 1, 2]" "[(''flavor'', ''ns'')]" "[7]"]
    by (auto simp: len)
  show ?thesis using example_cache example_save_fails 1 held_cache 2 by blast
qed

subsection \<open>Opening a cache\<close>

lemma rescanned_nil:
  assumes "cache_at w c = Some cache" and "entries cache = Some es"
  shows "rescanned w c cache es [] = w"
proof -
  have "cache\<lparr>entries := Some es\<rparr> = cache" using assms(2) by simp
  moreover have "(cache_heap w)[c := Some cache] = cache_heap w"
    using assms(1) by (auto simp: cache_at_def list_update_same_conv split: if_splits)
  ultimately show ?thesis by (simp add: rescanned_def)
qed

lemma rescanned_cons:
  assumes "cache_at w c = Some cache"
  shows "rescanned
           (tor_munmap_file
              (set_cache
                 (w\<lparr>mmaps := mmaps w @ [Some bs],
                    entry_heap := entry_heap w @ [Some (new_entry fn ls c)]\<rparr>) c
                 (Some (cache\<lparr>entries := Some (es @ [length (entry_heap w)])\<rparr>)))
              (length (mmaps w)))
           c (cache\<lparr>entries := Some (es @ [length (entry_heap w)])\<rparr>)
           (es @ [length (entry_heap w)]) files =
         rescanned w c cache es ((fn, ls) # files)"
  by (simp add: rescanned_def tor_munmap_file_def set_cache_def upt_conv_Cons
      replicate_append_same del: upt_Suc)

lemma rescan_loop_rescanned:
  "cache_at w c = Some cache \<Longrightarrow> entries cache = Some es \<Longrightarrow>
   rescan_loop w c d fnames = Inr (rescanned w c cache es (readable d fnames))"
proof (induction fnames arbitrary: w cache es)
  case Nil
  then show ?case by (simp add: rescanned_nil)
next
  case (Cons fn fnames)
  show ?case
  proof (cases "map_of (contents d) fn")
    case None
    then show ?thesis
      using Cons by (simp add: storage_dir_map_labelled_def)
  next
    case (Some f)
    show ?thesis
    proof (cases f)
      case Unreadable
      then show ?thesis
        using Some Cons by (simp add: storage_dir_map_labelled_def)
    next
      case (Labelled ls bs)
      let ?a = "length (entry_heap w)"
      let ?cache' = "cache\<lparr>entries := Some (es @ [?a])\<rparr>"
      let ?w3 = "tor_munmap_file
              (set_cache
                 (w\<lparr>mmaps := mmaps w @ [Some bs],
                    entry_heap := entry_heap w @ [Some (new_entry fn ls c)]\<rparr>) c
                 (Some ?cache'))
              (length (mmaps w))"
      have lt: "c < length (cache_heap w)"
        using Cons.prems(1) by (auto simp: cache_at_def split: if_splits)
      have c3: "cache_at ?w3 c = Some ?cache'"
        using lt by (simp add: cache_at_def tor_munmap_file_def set_cache_def)
      have ih: "rescan_loop ?w3 c d fnames =
                  Inr (rescanned ?w3 c ?cache' (es @ [?a]) (readable d fnames))"
        by (rule Cons.IH [OF c3]) simp
      have c2: "cache_at (w\<lparr>mmaps := mmaps w @ [Some bs],
                    entry_heap := entry_heap w @ [Some (new_entry fn ls c)]\<rparr>) c = Some cache"
        using Cons.prems(1) by (auto simp: cache_at_def split: if_splits)
      have "rescan_loop w c d (fn # fnames) = rescan_loop ?w3 c d fnames"
        using Some Labelled c2 Cons.prems(2)
        by (simp add: storage_dir_map_labelled_def Let_def)
      then show ?thesis
        using ih rescanned_cons [OF Cons.prems(1), where bs = bs and fn = fn and ls = ls and es = es
            and files = "readable d fnames"]
          Some Labelled by simp
    qed
  qed
qed

lemma rescan_rescanned:
  assumes "cache_at w c = Some cache" and "dir cache = Some d"
  shows "consensus_cache_rescan w c =
           Inr (rescanned (set_cache w c (Some (cache\<lparr>entries := Some []\<rparr>))) c
                  (cache\<lparr>entries := Some []\<rparr>) [] (readable d (storage_dir_list d)))"
proof -
  have lt: "c < length (cache_heap w)"
    using assms(1) by (auto simp: cache_at_def split: if_splits)
  have "cache_at (set_cache w c (Some (cache\<lparr>entries := Some []\<rparr>))) c =
          Some (cache\<lparr>entries := Some []\<rparr>)"
    using lt by (simp add: cache_at_def set_cache_def)
  from rescan_loop_rescanned [OF this, of "[]" d "storage_dir_list d"]
  show ?thesis using assms by (simp add: consensus_cache_rescan_def Let_def)
qed

lemma open_bound:
  assumes "storage_dir_new (get_datadir_fname subdir) max_entries = Some d"
  shows "consensus_cache_open get_datadir_fname storage_dir_new w subdir max_entries =
           Inr (Some (length (cache_heap w)),
                w\<lparr>entry_heap := entry_heap w @
                     map (\<lambda>(fn, ls). Some (new_entry fn ls (length (cache_heap w))))
                       (readable d (storage_dir_list d)),
                   cache_heap := cache_heap w @
                     [Some \<lparr>dir = Some d,
                            entries = Some [length (entry_heap w) ..<
                              length (entry_heap w) +
                              length (readable d (storage_dir_list d))]\<rparr>],
                   mmaps := mmaps w @
                     replicate (length (readable d (storage_dir_list d))) None\<rparr>)"
proof -
  let ?c = "length (cache_heap w)"
  let ?w1 = "w\<lparr>cache_heap := cache_heap w @ [Some \<lparr>dir = None, entries = None\<rparr>]\<rparr>"
  let ?w2 = "set_cache ?w1 ?c (Some \<lparr>dir = Some d, entries = None\<rparr>)"
  have c2: "cache_at ?w2 ?c = Some \<lparr>dir = Some d, entries = None\<rparr>"
    by (simp add: cache_at_def set_cache_def)
  have "consensus_cache_rescan ?w2 ?c =
          Inr (rescanned (set_cache ?w2 ?c (Some (\<lparr>dir = Some d, entries = None\<rparr>\<lparr>entries := Some []\<rparr>)))
                 ?c (\<lparr>dir = Some d, entries = None\<rparr>\<lparr>entries := Some []\<rparr>) []
                 (readable d (storage_dir_list d)))"
    by (rule rescan_rescanned [OF c2]) simp
  then show ?thesis
    using assms
    by (simp add: consensus_cache_open_def Let_def rescanned_def set_cache_def)
qed

lemma open_unbound:
  assumes "storage_dir_new (get_datadir_fname subdir) max_entries = None"
  shows "consensus_cache_open get_datadir_fname storage_dir_new w subdir max_entries =
           Inl Null_storage_dir"
  using assms
  by (simp add: consensus_cache_open_def Let_def consensus_cache_rescan_def
      cache_at_def set_cache_def)

lemma example_readable:
  "readable example_dir (storage_dir_list example_dir) =
     [(''0'', [(''type'', ''consensus''), (''flavor'', ''ns'')]),
      (''1'', [(''type'', ''consensus''), (''flavor'', ''microdesc'')]),
      (''2'', [(''flavor'', ''ns''), (''flavor'', ''microdesc'')])]"
  by (simp add: example_dir_def storage_dir_list_def)

lemma flavors_readable:
  "readable flavors_dir (storage_dir_list flavors_dir) =
     [(''0'', [(''flavor'', ''microdesc'')]),
      (''1'', [(''flavor'', ''ns'')]),
      (''2'', [(''flavor'', ''ns'')])]"
  by (simp add: flavors_dir_def storage_dir_list_def)

text \<open>
  The two example caches are what \<open>open\<close> builds, in a process that has no cache yet,
  from the two example directories.
\<close>

lemma example_world_opened:
  "consensus_cache_open example_datadir_fname binding_example_dir empty_world
     ''consensus'' 3 = Inr (Some 0, example_world)"
proof -
  have b: "binding_example_dir (example_datadir_fname ''consensus'') 3 = Some example_dir"
    by (simp add: binding_example_dir_def example_dir_def)
  have w: "empty_world\<lparr>entry_heap := entry_heap empty_world @
                  map (\<lambda>(fn, ls). Some (new_entry fn ls (length (cache_heap empty_world))))
                    (readable example_dir (storage_dir_list example_dir)),
                cache_heap := cache_heap empty_world @
                  [Some \<lparr>dir = Some example_dir,
                         entries = Some [length (entry_heap empty_world) ..<
                           length (entry_heap empty_world) +
                           length (readable example_dir (storage_dir_list example_dir))]\<rparr>],
                mmaps := mmaps empty_world @
                  replicate (length (readable example_dir (storage_dir_list example_dir)))
                    None\<rparr> = example_world"
    by (simp add: example_readable empty_world_def example_world_def upt_conv_Cons
        eval_nat_numeral del: upt_Suc)
  have l: "length (cache_heap empty_world) = 0" by (simp add: empty_world_def)
  note t = open_bound [where storage_dir_new = binding_example_dir
      and get_datadir_fname = example_datadir_fname, OF b, of empty_world]
  have "consensus_cache_open example_datadir_fname binding_example_dir empty_world
     ''consensus'' 3 = Inr (Some (length (cache_heap empty_world)), example_world)"
    using t by (simp only: w)
  then show ?thesis by (simp only: l)
qed

lemma flavors_world_opened:
  "consensus_cache_open example_datadir_fname binding_flavors_dir empty_world
     ''consensus'' 3 = Inr (Some 0, flavors_world)"
proof -
  have b: "binding_flavors_dir (example_datadir_fname ''consensus'') 3 = Some flavors_dir"
    by (simp add: binding_flavors_dir_def)
  have w: "empty_world\<lparr>entry_heap := entry_heap empty_world @
                  map (\<lambda>(fn, ls). Some (new_entry fn ls (length (cache_heap empty_world))))
                    (readable flavors_dir (storage_dir_list flavors_dir)),
                cache_heap := cache_heap empty_world @
                  [Some \<lparr>dir = Some flavors_dir,
                         entries = Some [length (entry_heap empty_world) ..<
                           length (entry_heap empty_world) +
                           length (readable flavors_dir (storage_dir_list flavors_dir))]\<rparr>],
                mmaps := mmaps empty_world @
                  replicate (length (readable flavors_dir (storage_dir_list flavors_dir)))
                    None\<rparr> = flavors_world"
    by (simp add: flavors_readable empty_world_def flavors_world_def upt_conv_Cons
        eval_nat_numeral del: upt_Suc)
  have l: "length (cache_heap empty_world) = 0" by (simp add: empty_world_def)
  note t = open_bound [where storage_dir_new = binding_flavors_dir
      and get_datadir_fname = example_datadir_fname, OF b, of empty_world]
  have "consensus_cache_open example_datadir_fname binding_flavors_dir empty_world
     ''consensus'' 3 = Inr (Some (length (cache_heap empty_world)), flavors_world)"
    using t by (simp only: w)
  then show ?thesis by (simp only: l)
qed

text \<open>
  Claim C9. The specification has \<open>open\<close> fail, handing the failure to its caller, when
  the storage directory binding cannot be established. The code does not: \<open>open\<close> does
  not test what \<^verbatim>\<open>storage_dir_new\<close> returned. Whenever the binding cannot be
  established, in every state and for every subdirectory and bound, \<open>open\<close> stores the
  null handle in the new cache and the rescan passes it to \<^verbatim>\<open>storage_dir_list\<close>: the
  call ends in the fault \<open>Null_storage_dir\<close> and returns neither a failure nor a cache.
\<close>

theorem open_unbound_uses_null_storage_dir:
  assumes "storage_dir_new (get_datadir_fname subdir) max_entries = None"
  shows "consensus_cache_open get_datadir_fname storage_dir_new w subdir max_entries =
           Inl Null_storage_dir"
  using assms by (rule open_unbound)

theorem open_unbound_uses_null_storage_dir_witness:
  "binding_nothing (example_datadir_fname ''consensus'') 3 = None \<and>
   consensus_cache_open example_datadir_fname binding_nothing empty_world ''consensus'' 3 =
     Inl Null_storage_dir"
  using open_unbound_uses_null_storage_dir
    [of binding_nothing example_datadir_fname "''consensus''" 3 empty_world]
  by (simp add: binding_nothing_def)

subsection \<open>Persistence\<close>

lemma length_le_foldr_max:
  "u \<in> set used \<Longrightarrow> length u \<le> foldr max (map length used) 0"
  by (induction used) auto

lemma fresh_fname_fresh: "fresh_fname used \<notin> set used"
proof
  assume "fresh_fname used \<in> set used"
  from length_le_foldr_max [OF this] show False
    by (simp add: fresh_fname_def)
qed

lemma map_of_appended_fresh:
  assumes "fn \<notin> set (map fst xs)"
  shows "map_of (xs @ [(fn, f)]) fn = Some f"
proof -
  have "map_of xs fn = None"
    using assms by (simp add: map_of_eq_None_iff)
  then show ?thesis by (simp add: map_add_def)
qed

lemma readable_member:
  "fn \<in> set fnames \<Longrightarrow> map_of (contents d) fn = Some (Labelled ls bs) \<Longrightarrow>
   (fn, ls) \<in> set (readable d fnames)"
  by (induction fnames) (auto split: option.splits stored_file.splits)

lemma save_success:
  assumes "storage_dir_save_labelled_to_file d ls data = (r, fn_out, d')"
    and "\<not> (r < 0 \<or> fn_out = None)"
  shows "\<exists>fn. fn_out = Some fn \<and> fn \<in> set (storage_dir_list d') \<and>
           map_of (contents d') fn = Some (Labelled ls data)"
proof -
  let ?fn = "fresh_fname (storage_dir_list d)"
  have room: "int (length (contents d)) < max_files d"
    using assms by (auto simp: storage_dir_save_labelled_to_file_def Let_def split: if_splits)
  then have fo: "fn_out = Some ?fn"
    and d': "d' = d\<lparr>contents := contents d @ [(?fn, Labelled ls data)]\<rparr>"
    using assms(1) by (simp_all add: storage_dir_save_labelled_to_file_def Let_def)
  have "?fn \<notin> set (map fst (contents d))"
    using fresh_fname_fresh [of "storage_dir_list d"] by (simp add: storage_dir_list_def)
  then have "map_of (contents d') ?fn = Some (Labelled ls data)"
    unfolding d' by (simp add: map_of_appended_fresh del: map_of_append)
  moreover have "?fn \<in> set (storage_dir_list d')"
    unfolding d' by (simp add: storage_dir_list_def)
  ultimately show ?thesis using fo by blast
qed

lemma get_body_fresh_entry:
  assumes e: "entry_at w e = Some (new_entry fn ls c)"
    and c: "cache_at w c = Some cache" and d: "dir cache = Some d"
    and f: "map_of (contents d) fn = Some (Labelled ls' data)"
  shows "\<exists>p w'. consensus_cache_entry_get_body w e = Inr (Some (p, length data), w') \<and>
           body_bytes w' (p, length data) = Some data"
proof -
  let ?m = "length (mmaps w)"
  let ?w1 = "w\<lparr>mmaps := mmaps w @ [Some data]\<rparr>"
  let ?ent = "(new_entry fn ls c)\<lparr>map_handle := Some ?m, body := Some ?m,
                bodylen := length data\<rparr>"
  let ?w' = "set_entry ?w1 e (Some ?ent)"
  have lt: "e < length (entry_heap w)"
    using e by (auto simp: entry_at_def split: if_splits)
  have m: "consensus_cache_entry_map w c e = Inr ?w'"
    using e c d f
    by (simp add: consensus_cache_entry_map_def storage_dir_map_labelled_def Let_def
        new_entry_def)
  have e': "entry_at ?w' e = Some ?ent"
    using lt by (simp add: entry_at_def set_entry_def)
  have "consensus_cache_entry_get_body w e = Inr (Some (Some ?m, length data), ?w')"
    using e m e' by (simp add: consensus_cache_entry_get_body_def new_entry_def)
  moreover have "body_bytes ?w' (Some ?m, length data) = Some data"
    by (simp add: body_bytes_def mmap_at_def set_entry_def)
  ultimately show ?thesis by blast
qed

lemma add_returns_entry:
  assumes "cache_at w c = Some cache" and "dir cache = Some d" and "entries cache = Some es"
    and "consensus_cache_add w c ls data = Inr (Some a, w1)"
  shows "\<exists>r fn d'. storage_dir_save_labelled_to_file d ls data = (r, Some fn, d') \<and>
           \<not> r < 0 \<and>
           cache_at w1 c = Some \<lparr>dir = Some d', entries = Some (es @ [a])\<rparr> \<and>
           entry_at w1 a = Some (new_entry fn ls c)"
proof -
  obtain r fn_out d' where s: "storage_dir_save_labelled_to_file d ls data = (r, fn_out, d')"
    by (cases "storage_dir_save_labelled_to_file d ls data") auto
  have ok: "\<not> (r < 0 \<or> fn_out = None)"
    using assms s by (auto simp: consensus_cache_add_def Let_def split: if_splits)
  then obtain fn where fn: "fn_out = Some fn" by auto
  have lt: "c < length (cache_heap w)"
    using assms(1) by (auto simp: cache_at_def split: if_splits)
  have a: "a = length (entry_heap w)"
    and w1: "w1 = set_cache
                    ((set_cache w c (Some (cache\<lparr>dir := Some d'\<rparr>)))
                       \<lparr>entry_heap := entry_heap w @ [Some (new_entry fn ls c)]\<rparr>)
                    c (Some (cache\<lparr>dir := Some d', entries := Some (es @ [a])\<rparr>))"
    using assms s ok fn
    by (auto simp: consensus_cache_add_def Let_def set_cache_def config_lines_dup_def)
  have "cache_at w1 c = Some \<lparr>dir = Some d', entries = Some (es @ [a])\<rparr>"
    unfolding w1 using lt by (simp add: cache_at_def set_cache_def)
  moreover have "entry_at w1 a = Some (new_entry fn ls c)"
    unfolding w1 using a by (simp add: entry_at_def set_cache_def)
  ultimately show ?thesis using s fn ok by blast
qed

lemma held_add:
  "\<exists>w1. consensus_cache_add held_world 0 [(''type'', ''consensus''), (''flavor'', ''ns'')]
          [7, 8] = Inr (Some 4, w1)"
proof -
  have "length (entry_heap held_world) = 4" by (simp add: held_world_def)
  then show ?thesis
    by (simp add: consensus_cache_add_def held_cache roomy_save Let_def set_cache_def)
qed

text \<open>
  Claim C8. Round trip through persistence: after \<open>add\<close> has stored a document with
  labels \<open>ls\<close> and body \<open>data\<close>, every \<open>open\<close> whose binding finds the directory as
  \<open>add\<close> left it (a restart: any world, a new cache, a full rescan) yields an
  entry of the new cache for the file \<open>add\<close> wrote, on which \<open>get_labels\<close> gives \<open>ls\<close>,
  \<open>get_value\<close> gives for each key the value of the first label with that key (for
  labels with distinct keys: the value of each label), and \<open>get_body\<close> succeeds with
  the length of \<open>data\<close> and a pointer to exactly the bytes of \<open>data\<close>.
\<close>

theorem add_then_rescan_round_trip:
  assumes "cache_at w c = Some cache" and "dir cache = Some d" and "entries cache = Some es"
    and "consensus_cache_add w c ls data = Inr (Some a, w1)"
  shows "\<exists>d' fn.
           (\<exists>cache1 ent1. cache_at w1 c = Some cache1 \<and> dir cache1 = Some d' \<and>
              entry_at w1 a = Some ent1 \<and> fname ent1 = fn \<and> labels ent1 = ls) \<and>
           (\<forall>get_datadir_fname storage_dir_new w0 subdir max_entries.
              storage_dir_new (get_datadir_fname subdir) max_entries = Some d' \<longrightarrow>
              (\<exists>c2 w2 cache2 es2 e ent.
                 consensus_cache_open get_datadir_fname storage_dir_new w0 subdir max_entries =
                   Inr (Some c2, w2) \<and>
                 cache_at w2 c2 = Some cache2 \<and> entries cache2 = Some es2 \<and> e \<in> set es2 \<and>
                 entry_at w2 e = Some ent \<and> fname ent = fn \<and>
                 consensus_cache_entry_get_labels ent = ls \<and>
                 (\<forall>key. consensus_cache_entry_get_value ent key = map_of ls key) \<and>
                 (distinct (map fst ls) \<longrightarrow>
                    (\<forall>key val. (key, val) \<in> set ls \<longrightarrow>
                       consensus_cache_entry_get_value ent key = Some val)) \<and>
                 (\<exists>p w3. consensus_cache_entry_get_body w2 e = Inr (Some (p, length data), w3) \<and>
                    body_bytes w3 (p, length data) = Some data)))"
proof -
  from add_returns_entry [OF assms] obtain r fn d' where
    s: "storage_dir_save_labelled_to_file d ls data = (r, Some fn, d')" and r: "\<not> r < 0"
    and c1: "cache_at w1 c = Some \<lparr>dir = Some d', entries = Some (es @ [a])\<rparr>"
    and e1: "entry_at w1 a = Some (new_entry fn ls c)"
    by blast
  from save_success [OF s] r have listed: "fn \<in> set (storage_dir_list d')"
    and stored: "map_of (contents d') fn = Some (Labelled ls data)"
    by auto
  have 1: "\<exists>cache1 ent1. cache_at w1 c = Some cache1 \<and> dir cache1 = Some d' \<and>
              entry_at w1 a = Some ent1 \<and> fname ent1 = fn \<and> labels ent1 = ls"
    using c1 e1 by (simp add: new_entry_def)
  have 2: "\<exists>c2 w2 cache2 es2 e ent.
                 consensus_cache_open gd sn w0 subdir mx = Inr (Some c2, w2) \<and>
                 cache_at w2 c2 = Some cache2 \<and> entries cache2 = Some es2 \<and> e \<in> set es2 \<and>
                 entry_at w2 e = Some ent \<and> fname ent = fn \<and>
                 consensus_cache_entry_get_labels ent = ls \<and>
                 (\<forall>key. consensus_cache_entry_get_value ent key = map_of ls key) \<and>
                 (distinct (map fst ls) \<longrightarrow>
                    (\<forall>key val. (key, val) \<in> set ls \<longrightarrow>
                       consensus_cache_entry_get_value ent key = Some val)) \<and>
                 (\<exists>p w3. consensus_cache_entry_get_body w2 e = Inr (Some (p, length data), w3) \<and>
                    body_bytes w3 (p, length data) = Some data)"
    if b: "sn (gd subdir) mx = Some d'" for gd sn w0 subdir mx
  proof -
    let ?files = "readable d' (storage_dir_list d')"
    let ?c2 = "length (cache_heap w0)"
    let ?n = "length (entry_heap w0)"
    let ?cache2 = "\<lparr>dir = Some d', entries = Some [?n ..< ?n + length ?files]\<rparr>"
    let ?w2 = "w0\<lparr>entry_heap := entry_heap w0 @
                     map (\<lambda>(fn, ls). Some (new_entry fn ls ?c2)) ?files,
                   cache_heap := cache_heap w0 @ [Some ?cache2],
                   mmaps := mmaps w0 @ replicate (length ?files) None\<rparr>"
    have o: "consensus_cache_open gd sn w0 subdir mx = Inr (Some ?c2, ?w2)"
      using b by (rule open_bound [where storage_dir_new = sn and get_datadir_fname = gd])
    from readable_member [OF listed stored] obtain i where
      i: "i < length ?files" "?files ! i = (fn, ls)"
      by (auto simp: in_set_conv_nth)
    let ?e = "?n + i"
    let ?ent = "new_entry fn ls ?c2"
    have c2: "cache_at ?w2 ?c2 = Some ?cache2" by (simp add: cache_at_def)
    have mem: "?e \<in> set [?n ..< ?n + length ?files]" using i(1) by simp
    have e2: "entry_at ?w2 ?e = Some ?ent"
      using i by (simp add: entry_at_def nth_append)
    have v: "\<forall>key. consensus_cache_entry_get_value ?ent key = map_of ls key"
      by (simp add: get_value_map_of new_entry_def)
    have v2: "distinct (map fst ls) \<longrightarrow>
                (\<forall>key val. (key, val) \<in> set ls \<longrightarrow>
                   consensus_cache_entry_get_value ?ent key = Some val)"
      by (simp add: get_value_map_of new_entry_def)
    have b2: "\<exists>p w3. consensus_cache_entry_get_body ?w2 ?e = Inr (Some (p, length data), w3) \<and>
                    body_bytes w3 (p, length data) = Some data"
      by (rule get_body_fresh_entry [OF e2 c2 _ stored]) simp
    have f: "fname ?ent = fn" "consensus_cache_entry_get_labels ?ent = ls"
      by (simp_all add: new_entry_def consensus_cache_entry_get_labels_def)
    have en: "entries ?cache2 = Some [?n ..< ?n + length ?files]" by simp
    show ?thesis
      apply (rule exI [of _ ?c2])
      apply (rule exI [of _ ?w2])
      apply (rule exI [of _ ?cache2])
      apply (rule exI [of _ "[?n ..< ?n + length ?files]"])
      apply (rule exI [of _ ?e])
      apply (rule exI [of _ ?ent])
      apply (intro conjI)
               apply (rule o)
              apply (rule c2)
             apply (rule en)
            apply (rule mem)
           apply (rule e2)
          apply (rule f(1))
         apply (rule f(2))
        apply (rule v)
       apply (rule v2)
      apply (rule b2)
      done
  qed
  show ?thesis
    apply (rule exI [of _ d'])
    apply (rule exI [of _ fn])
    apply (intro conjI allI impI)
     apply (rule 1)
    apply (erule 2)
    done
qed

theorem add_then_rescan_round_trip_witness:
  "cache_at held_world 0 = Some \<lparr>dir = Some roomy_dir, entries = Some [0, 1, 2]\<rparr> \<and>
   (\<exists>w1. consensus_cache_add held_world 0 [(''type'', ''consensus''), (''flavor'', ''ns'')]
            [7, 8] = Inr (Some 4, w1) \<and>
      cache_at w1 0 = Some \<lparr>dir = Some restarted_dir, entries = Some [0, 1, 2, 4]\<rparr>) \<and>
   binding_restarted_dir (example_datadir_fname ''consensus'') 5 = Some restarted_dir \<and>
   (\<exists>c2 w2 e ent p w3.
      consensus_cache_open example_datadir_fname binding_restarted_dir empty_world
        ''consensus'' 5 = Inr (Some c2, w2) \<and>
      entry_at w2 e = Some ent \<and>
      consensus_cache_entry_get_value ent ''type'' = Some ''consensus'' \<and>
      consensus_cache_entry_get_value ent ''flavor'' = Some ''ns'' \<and>
      consensus_cache_entry_get_body w2 e = Inr (Some (p, 2), w3) \<and>
      body_bytes w3 (p, 2) = Some [7, 8])"
proof -
  let ?ls = "[(''type'', ''consensus''), (''flavor'', ''ns'')]"
  from held_add obtain w1 where
    add: "consensus_cache_add held_world 0 ?ls [7, 8] = Inr (Some 4, w1)" by blast
  have en: "entries \<lparr>dir = Some roomy_dir, entries = Some [0, 1, 2]\<rparr> = Some [0, 1, 2]"
    and di: "dir \<lparr>dir = Some roomy_dir, entries = Some [0, 1, 2]\<rparr> = Some roomy_dir"
    by simp_all
  from add_returns_entry [OF held_cache di en add]
  have c1: "cache_at w1 0 = Some \<lparr>dir = Some restarted_dir, entries = Some [0, 1, 2, 4]\<rparr>"
    by (auto simp: roomy_save restarted_dir_def)
  have b: "binding_restarted_dir (example_datadir_fname ''consensus'') 5 = Some restarted_dir"
    by (simp add: binding_restarted_dir_def)
  from add_then_rescan_round_trip [OF held_cache di en add] obtain d' fn where
    1: "\<exists>cache1 ent1. cache_at w1 0 = Some cache1 \<and> dir cache1 = Some d' \<and>
              entry_at w1 4 = Some ent1 \<and> fname ent1 = fn \<and> labels ent1 = ?ls"
    and 2: "\<And>get_datadir_fname storage_dir_new w0 subdir max_entries.
              storage_dir_new (get_datadir_fname subdir) max_entries = Some d' \<Longrightarrow>
              (\<exists>c2 w2 cache2 es2 e ent.
                 consensus_cache_open get_datadir_fname storage_dir_new w0 subdir max_entries =
                   Inr (Some c2, w2) \<and>
                 cache_at w2 c2 = Some cache2 \<and> entries cache2 = Some es2 \<and> e \<in> set es2 \<and>
                 entry_at w2 e = Some ent \<and> fname ent = fn \<and>
                 consensus_cache_entry_get_labels ent = ?ls \<and>
                 (\<forall>key. consensus_cache_entry_get_value ent key = map_of ?ls key) \<and>
                 (distinct (map fst ?ls) \<longrightarrow>
                    (\<forall>key val. (key, val) \<in> set ?ls \<longrightarrow>
                       consensus_cache_entry_get_value ent key = Some val)) \<and>
                 (\<exists>p w3. consensus_cache_entry_get_body w2 e =
                      Inr (Some (p, length [7 :: byte, 8]), w3) \<and>
                    body_bytes w3 (p, length [7 :: byte, 8]) = Some [7, 8]))"
    by blast
  from 1 c1 have d': "d' = restarted_dir" by auto
  from 2 [of binding_restarted_dir example_datadir_fname "''consensus''" 5 empty_world] b d'
  obtain c2 w2 e ent p w3 where
    o: "consensus_cache_open example_datadir_fname binding_restarted_dir empty_world
          ''consensus'' 5 = Inr (Some c2, w2)"
    and e: "entry_at w2 e = Some ent"
    and v: "\<forall>key. consensus_cache_entry_get_value ent key = map_of ?ls key"
    and g0: "consensus_cache_entry_get_body w2 e = Inr (Some (p, length [7 :: byte, 8]), w3)"
      "body_bytes w3 (p, length [7 :: byte, 8]) = Some [7, 8]"
    by auto
  have g: "consensus_cache_entry_get_body w2 e = Inr (Some (p, 2), w3)"
    "body_bytes w3 (p, 2) = Some [7, 8]"
    using g0 by (simp_all add: eval_nat_numeral)
  have v1: "consensus_cache_entry_get_value ent ''type'' = Some ''consensus''"
    and v2: "consensus_cache_entry_get_value ent ''flavor'' = Some ''ns''"
    using v by simp_all
  show ?thesis
    using held_cache add c1 b o e v1 v2 g by blast
qed

subsection \<open>The invariant of the mappings\<close>

lemma mmap_at_set_entry [simp]: "mmap_at (set_entry w a x) m = mmap_at w m"
  by (simp add: mmap_at_def set_entry_def)

lemma entry_at_munmap [simp]: "entry_at (tor_munmap_file w m) a = entry_at w a"
  by (simp add: entry_at_def tor_munmap_file_def)

lemma entry_at_set_cache [simp]: "entry_at (set_cache w c x) a = entry_at w a"
  by (simp add: entry_at_def set_cache_def)

lemma mmap_at_set_cache [simp]: "mmap_at (set_cache w c x) m = mmap_at w m"
  by (simp add: mmap_at_def set_cache_def)

lemma entry_at_bug [simp]: "entry_at (tor_bug_occurred w) a = entry_at w a"
  by (simp add: entry_at_def tor_bug_occurred_def)

lemma mmap_at_bug [simp]: "mmap_at (tor_bug_occurred w) m = mmap_at w m"
  by (simp add: mmap_at_def tor_bug_occurred_def)

lemma heap_length_simps [simp]:
  "length (entry_heap (set_entry w a x)) = length (entry_heap w)"
  "length (entry_heap (tor_munmap_file w m)) = length (entry_heap w)"
  "length (entry_heap (set_cache w c y)) = length (entry_heap w)"
  "length (entry_heap (tor_bug_occurred w)) = length (entry_heap w)"
  by (simp_all add: set_entry_def tor_munmap_file_def set_cache_def tor_bug_occurred_def)

lemma mmap_at_fresh: "mmap_at w (length (mmaps w)) = None"
  by (simp add: mmap_at_def)

lemma evolves_refl: "evolves w w"
  by (auto simp: evolves_def)

lemma evolves_trans:
  assumes "evolves w w'" and "evolves w' w''"
  shows "evolves w w''"
  unfolding evolves_def
proof (intro conjI allI impI)
  show "length (entry_heap w) \<le> length (entry_heap w'')"
    using assms by (simp add: evolves_def)
next
  fix a e''
  assume h: "a < length (entry_heap w) \<and> entry_at w'' a = Some e''"
  then have "a < length (entry_heap w')" using assms(1) by (simp add: evolves_def)
  with h assms(2) obtain e' where e': "entry_at w' a = Some e'"
    "fname e'' = fname e'" "labels e'' = labels e'"
    "\<forall>m. map_handle e' = Some m \<longrightarrow>
       map_handle e'' = Some m \<and> body e'' = body e' \<and> bodylen e'' = bodylen e' \<and>
       mmap_at w'' m = mmap_at w' m"
    unfolding evolves_def by blast
  from h e'(1) assms(1) obtain e where e: "entry_at w a = Some e"
    "fname e' = fname e" "labels e' = labels e"
    "\<forall>m. map_handle e = Some m \<longrightarrow>
       map_handle e' = Some m \<and> body e' = body e \<and> bodylen e' = bodylen e \<and>
       mmap_at w' m = mmap_at w m"
    unfolding evolves_def by blast
  show "\<exists>e. entry_at w a = Some e \<and> fname e'' = fname e \<and> labels e'' = labels e \<and>
            (\<forall>m. map_handle e = Some m \<longrightarrow>
               map_handle e'' = Some m \<and> body e'' = body e \<and> bodylen e'' = bodylen e \<and>
               mmap_at w'' m = mmap_at w m)"
    using e e' by (intro exI [of _ e]) auto
qed

lemma evolves_same:
  assumes "length (entry_heap w') = length (entry_heap w)"
    and "\<And>a. entry_at w' a = entry_at w a" and "\<And>m. mmap_at w' m = mmap_at w m"
  shows "evolves w w'"
  using assms by (auto simp: evolves_def)

lemma world_ok_same:
  assumes "\<And>a. entry_at w' a = entry_at w a" and "\<And>m. mmap_at w' m = mmap_at w m"
    and "world_ok w"
  shows "world_ok w'"
proof -
  have "entry_at w' = entry_at w" "mmap_at w' = mmap_at w"
    using assms(1,2) by auto
  then have "entry_ok w' = entry_ok w"
    by (intro ext) (simp add: entry_ok_def split: option.splits)
  then show ?thesis
    using assms(1,3) by (simp add: world_ok_def)
qed

lemma entry_ok_transfer:
  assumes ok: "entry_ok w a e"
    and same: "map_handle e' = map_handle e" "body e' = body e" "bodylen e' = bodylen e"
    and mm: "\<And>m. map_handle e = Some m \<Longrightarrow> mmap_at w' m = mmap_at w m"
    and un: "\<And>m b eb. map_handle e = Some m \<Longrightarrow> entry_at w' b = Some eb \<Longrightarrow>
               map_handle eb = Some m \<Longrightarrow> b \<noteq> a \<Longrightarrow>
               \<exists>eb0. entry_at w b = Some eb0 \<and> map_handle eb0 = Some m"
  shows "entry_ok w' a e'"
proof (cases "map_handle e")
  case None
  then show ?thesis using ok same by (simp add: entry_ok_def)
next
  case (Some m)
  from ok Some have b: "body e = Some m"
    and bs: "\<exists>bs. mmap_at w m = Some bs \<and> bodylen e = length bs"
    and u: "\<And>b eb. entry_at w b = Some eb \<Longrightarrow> map_handle eb = Some m \<Longrightarrow> b = a"
    by (auto simp: entry_ok_def)
  have u': "\<forall>b eb. entry_at w' b = Some eb \<and> map_handle eb = Some m \<longrightarrow> b = a"
  proof (intro allI impI)
    fix b eb assume h: "entry_at w' b = Some eb \<and> map_handle eb = Some m"
    show "b = a"
    proof (rule ccontr)
      assume "b \<noteq> a"
      with un [OF Some] h obtain eb0 where "entry_at w b = Some eb0" "map_handle eb0 = Some m"
        by blast
      then have "b = a" by (rule u)
      with \<open>b \<noteq> a\<close> show False by simp
    qed
  qed
  have "\<exists>bs. mmap_at w' m = Some bs \<and> bodylen e' = length bs"
    using bs mm [OF Some] same(3) by simp
  then show ?thesis
    using Some same b u' by (simp add: entry_ok_def)
qed

lemma update_ok:
  assumes ok: "world_ok w" and e: "entry_at w a = Some e"
    and same: "map_handle e' = map_handle e" "body e' = body e" "bodylen e' = bodylen e"
  shows "world_ok (set_entry w a (Some e'))"
  unfolding world_ok_def
proof (intro allI impI)
  let ?w' = "set_entry w a (Some e')"
  fix b eb
  assume b: "entry_at ?w' b = Some eb"
  have lt: "a < length (entry_heap w)" using e by (rule entry_at_live_lt)
  have un: "\<exists>eb0. entry_at w c = Some eb0 \<and> map_handle eb0 = Some m"
    if "entry_at ?w' c = Some ec" "map_handle ec = Some m" for c ec m
  proof (cases "c = a")
    case True
    then have "ec = e'" using that(1) lt by (simp add: entry_at_set_entry)
    then show ?thesis using True e same(1) that(2) by simp
  next
    case False
    then show ?thesis using that by (simp add: entry_at_set_entry)
  qed
  show "entry_ok ?w' b eb"
  proof (cases "b = a")
    case True
    then have eb: "eb = e'" using b lt by (simp add: entry_at_set_entry)
    have "entry_ok w a e" using ok e by (simp add: world_ok_def)
    then have "entry_ok ?w' a e'"
      by (rule entry_ok_transfer [OF _ same]) (simp, rule un)
    then show ?thesis using True eb by simp
  next
    case False
    then have eb: "entry_at w b = Some eb" using b by (simp add: entry_at_set_entry)
    then have "entry_ok w b eb" using ok by (simp add: world_ok_def)
    then show ?thesis
      by (rule entry_ok_transfer [OF _ refl refl refl]) (simp, rule un)
  qed
qed

lemma update_evolves:
  assumes e: "entry_at w a = Some e"
    and same: "map_handle e' = map_handle e" "body e' = body e" "bodylen e' = bodylen e"
      "fname e' = fname e" "labels e' = labels e"
  shows "evolves w (set_entry w a (Some e'))"
  using assms by (auto simp: evolves_def entry_at_set_entry)

lemma free_ok:
  assumes ok: "world_ok w" and e: "entry_at w a = Some e"
  shows "world_ok (set_entry (case map_handle e of Some m \<Rightarrow> tor_munmap_file w m | None \<Rightarrow> w)
           a None)"
  unfolding world_ok_def
proof (intro allI impI)
  let ?w1 = "case map_handle e of Some m \<Rightarrow> tor_munmap_file w m | None \<Rightarrow> w"
  let ?w' = "set_entry ?w1 a None"
  fix b eb
  assume b: "entry_at ?w' b = Some eb"
  have ea: "entry_at ?w1 = entry_at w"
    by (rule ext) (simp split: option.splits)
  have lt: "a < length (entry_heap ?w1)"
    using entry_at_live_lt [OF e] by (simp split: option.splits)
  have old: "entry_at w c = Some ec \<and> c \<noteq> a" if "entry_at ?w' c = Some ec" for c ec
    using that lt by (auto simp: entry_at_set_entry ea split: if_splits)
  from old [OF b] have ne: "b \<noteq> a" and eb: "entry_at w b = Some eb" by simp_all
  have okb: "entry_ok w b eb" using ok eb by (simp add: world_ok_def)
  show "entry_ok ?w' b eb"
  proof (rule entry_ok_transfer [OF okb refl refl refl])
    fix m assume m: "map_handle eb = Some m"
    have "map_handle e \<noteq> Some m"
      using okb m e ne by (auto simp: entry_ok_def)
    then show "mmap_at ?w' m = mmap_at w m"
      by (cases "map_handle e") (auto simp: mmap_at_munmap)
  next
    fix m c ec
    assume "entry_at ?w' c = Some ec" "map_handle ec = Some m"
    then show "\<exists>eb0. entry_at w c = Some eb0 \<and> map_handle eb0 = Some m"
      using old by blast
  qed
qed

lemma free_evolves:
  assumes ok: "world_ok w" and e: "entry_at w a = Some e"
  shows "evolves w (set_entry (case map_handle e of Some m \<Rightarrow> tor_munmap_file w m | None \<Rightarrow> w)
           a None)"
  unfolding evolves_def
proof (intro conjI allI impI)
  let ?w1 = "case map_handle e of Some m \<Rightarrow> tor_munmap_file w m | None \<Rightarrow> w"
  show "length (entry_heap w) \<le> length (entry_heap (set_entry ?w1 a None))"
    by (simp split: option.splits)
  fix b eb
  assume h: "b < length (entry_heap w) \<and> entry_at (set_entry ?w1 a None) b = Some eb"
  have ea: "entry_at ?w1 = entry_at w"
    by (rule ext) (simp split: option.splits)
  have lt: "a < length (entry_heap ?w1)"
    using entry_at_live_lt [OF e] by (simp split: option.splits)
  from h lt have ne: "b \<noteq> a" and eb: "entry_at w b = Some eb"
    by (auto simp: entry_at_set_entry ea split: if_splits)
  have okb: "entry_ok w b eb" using ok eb by (simp add: world_ok_def)
  have "\<forall>m. map_handle eb = Some m \<longrightarrow> mmap_at (set_entry ?w1 a None) m = mmap_at w m"
  proof (intro allI impI)
    fix m assume m: "map_handle eb = Some m"
    have "map_handle e \<noteq> Some m"
      using okb m e ne by (auto simp: entry_ok_def)
    then show "mmap_at (set_entry ?w1 a None) m = mmap_at w m"
      by (cases "map_handle e") (auto simp: mmap_at_munmap)
  qed
  then show "\<exists>e. entry_at w b = Some e \<and> fname eb = fname e \<and> labels eb = labels e \<and>
            (\<forall>m. map_handle e = Some m \<longrightarrow>
               map_handle eb = Some m \<and> body eb = body e \<and> bodylen eb = bodylen e \<and>
               mmap_at (set_entry ?w1 a None) m = mmap_at w m)"
    using eb by (intro exI [of _ eb]) simp
qed

lemma live_mapping_below:
  assumes "world_ok w" and "entry_at w b = Some eb" and "map_handle eb = Some m"
  shows "m < length (mmaps w)"
proof -
  have "entry_ok w b eb" using assms(1,2) by (simp add: world_ok_def)
  then have "mmap_at w m \<noteq> None" using assms(3) by (auto simp: entry_ok_def)
  then show ?thesis by (auto simp: mmap_at_def split: if_splits)
qed

lemma mmap_at_alloc:
  "mmap_at (w\<lparr>mmaps := mmaps w @ [Some bs]\<rparr>) k =
     (if k = length (mmaps w) then Some bs else mmap_at w k)"
  by (auto simp: mmap_at_def nth_append)

lemma map_ok:
  assumes ok: "world_ok w" and e: "entry_at w a = Some e" and un: "map_handle e = None"
  shows "world_ok (set_entry (w\<lparr>mmaps := mmaps w @ [Some bs]\<rparr>) a
           (Some (e\<lparr>map_handle := Some (length (mmaps w)), body := Some (length (mmaps w)),
                    bodylen := length bs\<rparr>)))"
  unfolding world_ok_def
proof (intro allI impI)
  let ?m = "length (mmaps w)"
  let ?e' = "e\<lparr>map_handle := Some ?m, body := Some ?m, bodylen := length bs\<rparr>"
  let ?w' = "set_entry (w\<lparr>mmaps := mmaps w @ [Some bs]\<rparr>) a (Some ?e')"
  have lt: "a < length (entry_heap w)" using e by (rule entry_at_live_lt)
  have ea: "entry_at ?w' c = (if c = a then Some ?e' else entry_at w c)" for c
    using lt by (simp add: entry_at_def set_entry_def)
  note ma = mmap_at_alloc
  fix b eb
  assume b: "entry_at ?w' b = Some eb"
  show "entry_ok ?w' b eb"
  proof (cases "b = a")
    case True
    then have eb: "eb = ?e'" using b by (simp add: ea)
    have "\<forall>c ec. entry_at ?w' c = Some ec \<and> map_handle ec = Some ?m \<longrightarrow> c = a"
    proof (intro allI impI)
      fix c ec assume h: "entry_at ?w' c = Some ec \<and> map_handle ec = Some ?m"
      show "c = a"
      proof (rule ccontr)
        assume "c \<noteq> a"
        then have "entry_at w c = Some ec" using h by (simp add: ea)
        from live_mapping_below [OF ok this] h show False by simp
      qed
    qed
    then show ?thesis
      using True eb by (simp add: entry_ok_def ma)
  next
    case False
    then have eb: "entry_at w b = Some eb" using b by (simp add: ea)
    have okb: "entry_ok w b eb" using ok eb by (simp add: world_ok_def)
    show ?thesis
    proof (rule entry_ok_transfer [OF okb refl refl refl])
      fix m assume m: "map_handle eb = Some m"
      from live_mapping_below [OF ok eb m] show "mmap_at ?w' m = mmap_at w m"
        by (simp add: ma)
    next
      fix m c ec
      assume m: "map_handle eb = Some m" and c: "entry_at ?w' c = Some ec"
        "map_handle ec = Some m"
      have "m \<noteq> ?m" using live_mapping_below [OF ok eb m] by simp
      then have "c \<noteq> a" using c by (auto simp: ea)
      then show "\<exists>eb0. entry_at w c = Some eb0 \<and> map_handle eb0 = Some m"
        using c by (simp add: ea)
    qed
  qed
qed

lemma map_evolves:
  assumes ok: "world_ok w" and e: "entry_at w a = Some e" and un: "map_handle e = None"
  shows "evolves w (set_entry (w\<lparr>mmaps := mmaps w @ [Some bs]\<rparr>) a
           (Some (e\<lparr>map_handle := Some (length (mmaps w)), body := Some (length (mmaps w)),
                    bodylen := length bs\<rparr>)))"
  unfolding evolves_def
proof (intro conjI allI impI)
  let ?m = "length (mmaps w)"
  let ?e' = "e\<lparr>map_handle := Some ?m, body := Some ?m, bodylen := length bs\<rparr>"
  let ?w' = "set_entry (w\<lparr>mmaps := mmaps w @ [Some bs]\<rparr>) a (Some ?e')"
  have lt: "a < length (entry_heap w)" using e by (rule entry_at_live_lt)
  have ea: "entry_at ?w' c = (if c = a then Some ?e' else entry_at w c)" for c
    using lt by (simp add: entry_at_def set_entry_def)
  note ma = mmap_at_alloc
  show "length (entry_heap w) \<le> length (entry_heap ?w')"
    by (simp add: set_entry_def)
  fix b eb
  assume h: "b < length (entry_heap w) \<and> entry_at ?w' b = Some eb"
  show "\<exists>e. entry_at w b = Some e \<and> fname eb = fname e \<and> labels eb = labels e \<and>
            (\<forall>m. map_handle e = Some m \<longrightarrow>
               map_handle eb = Some m \<and> body eb = body e \<and> bodylen eb = bodylen e \<and>
               mmap_at ?w' m = mmap_at w m)"
  proof (cases "b = a")
    case True
    then have "eb = ?e'" using h by (simp add: ea)
    then show ?thesis using True e un by (intro exI [of _ e]) simp
  next
    case False
    then have eb: "entry_at w b = Some eb" using h by (simp add: ea)
    have "\<forall>m. map_handle eb = Some m \<longrightarrow> mmap_at ?w' m = mmap_at w m"
    proof (intro allI impI)
      fix m assume "map_handle eb = Some m"
      from live_mapping_below [OF ok eb this] show "mmap_at ?w' m = mmap_at w m"
        by (simp add: ma)
    qed
    then show ?thesis using eb by (intro exI [of _ eb]) simp
  qed
qed

lemma append_ok:
  assumes ok: "world_ok w"
    and heap: "entry_heap w' = entry_heap w @ map Some news"
    and news: "\<And>e. e \<in> set news \<Longrightarrow> map_handle e = None \<and> body e = None"
    and mm: "\<And>m. mmap_at w' m = mmap_at w m"
  shows "world_ok w'" and "evolves w w'"
proof -
  have old: "entry_at w' c = entry_at w c" if "c < length (entry_heap w)" for c
    using that by (simp add: entry_at_def heap nth_append)
  have new: "map_handle ec = None \<and> body ec = None"
    if "entry_at w' c = Some ec" "\<not> c < length (entry_heap w)" for c ec
  proof -
    have "c - length (entry_heap w) < length news" "ec = news ! (c - length (entry_heap w))"
      using that by (auto simp: entry_at_def heap nth_append split: if_splits)
    then have "ec \<in> set news" by simp
    then show ?thesis by (rule news)
  qed
  show "world_ok w'"
    unfolding world_ok_def
  proof (intro allI impI)
    fix b eb
    assume b: "entry_at w' b = Some eb"
    show "entry_ok w' b eb"
    proof (cases "b < length (entry_heap w)")
      case False
      from new [OF b False] show ?thesis by (simp add: entry_ok_def)
    next
      case True
      then have eb: "entry_at w b = Some eb" using b old by simp
      have okb: "entry_ok w b eb" using ok eb by (simp add: world_ok_def)
      show ?thesis
      proof (rule entry_ok_transfer [OF okb refl refl refl])
        fix m show "mmap_at w' m = mmap_at w m" by (rule mm)
      next
        fix m c ec
        assume c: "entry_at w' c = Some ec" "map_handle ec = Some m"
        have "c < length (entry_heap w)"
          using new [OF c(1)] c(2) by auto
        then show "\<exists>eb0. entry_at w c = Some eb0 \<and> map_handle eb0 = Some m"
          using c old by simp
      qed
    qed
  qed
  show "evolves w w'"
    unfolding evolves_def
  proof (intro conjI allI impI)
    show "length (entry_heap w) \<le> length (entry_heap w')" by (simp add: heap)
    fix b eb
    assume "b < length (entry_heap w) \<and> entry_at w' b = Some eb"
    then have "entry_at w b = Some eb" using old [of b] by auto
    then show "\<exists>e. entry_at w b = Some e \<and> fname eb = fname e \<and> labels eb = labels e \<and>
            (\<forall>m. map_handle e = Some m \<longrightarrow>
               map_handle eb = Some m \<and> body eb = body e \<and> bodylen eb = bodylen e \<and>
               mmap_at w' m = mmap_at w m)"
      by (intro exI [of _ eb]) (simp add: mm)
  qed
qed

lemma decref_result:
  assumes "entry_at w a = Some e"
  shows "consensus_cache_entry_decref w (Some a) =
           Inr (if refcnt e \<le> 0 then tor_bug_occurred w
                else if 1 < refcnt e then set_entry w a (Some (e\<lparr>refcnt := refcnt e - 1\<rparr>))
                else set_entry (case map_handle e of
                                  Some m \<Rightarrow> tor_munmap_file w m
                                | None \<Rightarrow> w) a None)"
  using assms by (simp add: consensus_cache_entry_decref_def Let_def)

lemma bug_ok: "world_ok w \<Longrightarrow> world_ok (tor_bug_occurred w)"
  by (rule world_ok_same [of _ w]) simp_all

lemma bug_evolves: "evolves w (tor_bug_occurred w)"
  by (rule evolves_same) simp_all

lemma set_cache_ok: "world_ok w \<Longrightarrow> world_ok (set_cache w c x)"
  by (rule world_ok_same [of _ w]) simp_all

lemma set_cache_evolves: "evolves w (set_cache w c x)"
  by (rule evolves_same) simp_all

lemma decref_step:
  assumes ok: "world_ok w" and d: "consensus_cache_entry_decref w p = Inr w'"
  shows "world_ok w' \<and> evolves w w'"
proof (cases p)
  case None
  then show ?thesis using ok d by (simp add: consensus_cache_entry_decref_def evolves_refl)
next
  case (Some a)
  then obtain e where e: "entry_at w a = Some e"
    using d by (auto simp: consensus_cache_entry_decref_def split: option.splits)
  consider "refcnt e \<le> 0" | "1 < refcnt e" | "refcnt e = 1" by linarith
  then show ?thesis
  proof cases
    case 1
    then have "w' = tor_bug_occurred w" using d Some decref_result [OF e] by simp
    then show ?thesis using ok by (simp add: bug_ok bug_evolves)
  next
    case 2
    then have "w' = set_entry w a (Some (e\<lparr>refcnt := refcnt e - 1\<rparr>))"
      using d Some decref_result [OF e] by simp
    then show ?thesis
      using update_ok [OF ok e, of "e\<lparr>refcnt := refcnt e - 1\<rparr>"]
        update_evolves [OF e, of "e\<lparr>refcnt := refcnt e - 1\<rparr>"] by simp
  next
    case 3
    then have "w' = set_entry (case map_handle e of
                                  Some m \<Rightarrow> tor_munmap_file w m | None \<Rightarrow> w) a None"
      using d Some decref_result [OF e] by simp
    then show ?thesis
      using free_ok [OF ok e] free_evolves [OF ok e] by simp
  qed
qed

lemma incref_step:
  assumes ok: "world_ok w" and d: "consensus_cache_entry_incref w a = Inr w'"
  shows "world_ok w' \<and> evolves w w'"
proof -
  from d obtain e where e: "entry_at w a = Some e"
    and w': "w' = set_entry w a (Some (e\<lparr>refcnt := refcnt e + 1\<rparr>))"
    by (auto simp: consensus_cache_entry_incref_def split: option.splits if_splits)
  show ?thesis
    unfolding w'
    using update_ok [OF ok e, of "e\<lparr>refcnt := refcnt e + 1\<rparr>"]
      update_evolves [OF e, of "e\<lparr>refcnt := refcnt e + 1\<rparr>"] by simp
qed

lemma mark_step:
  assumes ok: "world_ok w" and d: "consensus_cache_entry_mark_for_removal w a = Inr w'"
  shows "world_ok w' \<and> evolves w w'"
proof -
  from d obtain e where e: "entry_at w a = Some e"
    and w': "w' = set_entry w a (Some (e\<lparr>can_remove := 1\<rparr>))"
    by (auto simp: consensus_cache_entry_mark_for_removal_def split: option.splits)
  show ?thesis
    unfolding w'
    using update_ok [OF ok e, of "e\<lparr>can_remove := 1\<rparr>"]
      update_evolves [OF e, of "e\<lparr>can_remove := 1\<rparr>"] by simp
qed

lemma entry_map_result:
  assumes "entry_at w a = Some e" and "map_handle e = None"
    and "consensus_cache_entry_map w c a = Inr w'"
  shows "w' = set_entry w a (Some (e\<lparr>map_handle := None\<rparr>)) \<or>
         (\<exists>bs. w' = set_entry (w\<lparr>mmaps := mmaps w @ [Some bs]\<rparr>) a
            (Some (e\<lparr>map_handle := Some (length (mmaps w)), body := Some (length (mmaps w)),
                     bodylen := length bs\<rparr>)))"
  using assms
  by (auto simp: consensus_cache_entry_map_def storage_dir_map_labelled_def Let_def
      split: option.splits stored_file.splits)

lemma entry_map_step:
  assumes ok: "world_ok w" and d: "consensus_cache_entry_map w c a = Inr w'"
  shows "world_ok w' \<and> evolves w w'"
proof -
  from d obtain e where e: "entry_at w a = Some e"
    by (auto simp: consensus_cache_entry_map_def split: option.splits)
  show ?thesis
  proof (cases "map_handle e")
    case (Some m)
    then have "w' = w" using d e by (simp add: consensus_cache_entry_map_def)
    then show ?thesis using ok by (simp add: evolves_refl)
  next
    case None
    from entry_map_result [OF e None d] show ?thesis
    proof
      assume "w' = set_entry w a (Some (e\<lparr>map_handle := None\<rparr>))"
      then show ?thesis
        using update_ok [OF ok e, of "e\<lparr>map_handle := None\<rparr>"]
          update_evolves [OF e, of "e\<lparr>map_handle := None\<rparr>"] None by simp
    next
      assume "\<exists>bs. w' = set_entry (w\<lparr>mmaps := mmaps w @ [Some bs]\<rparr>) a
            (Some (e\<lparr>map_handle := Some (length (mmaps w)), body := Some (length (mmaps w)),
                     bodylen := length bs\<rparr>))"
      then show ?thesis
        using map_ok [OF ok e None] map_evolves [OF ok e None] by auto
    qed
  qed
qed

lemma get_body_step:
  assumes ok: "world_ok w" and d: "consensus_cache_entry_get_body w a = Inr (r, w')"
  shows "world_ok w' \<and> evolves w w'"
proof -
  have "w' = w \<or> (\<exists>c. consensus_cache_entry_map w c a = Inr w')"
    using d
    by (auto simp: consensus_cache_entry_get_body_def
        split: option.splits if_splits sum.splits)
  then show ?thesis
    using ok entry_map_step [OF ok] by (auto simp: evolves_refl)
qed

lemma add_step:
  assumes ok: "world_ok w" and d: "consensus_cache_add w c ls data = Inr (r, w')"
  shows "world_ok w' \<and> evolves w w'"
proof -
  have "(\<exists>x. w' = set_cache w c x) \<or>
        (\<exists>x y fn. w' = set_cache ((set_cache w c x)
           \<lparr>entry_heap := entry_heap (set_cache w c x) @
              [Some (new_entry fn (config_lines_dup ls) c)]\<rparr>) c y)"
    using d
    by (auto simp: consensus_cache_add_def Let_def
        split: option.splits if_splits prod.splits)
  then show ?thesis
  proof
    assume "\<exists>x. w' = set_cache w c x"
    then show ?thesis using ok by (auto simp: set_cache_ok set_cache_evolves)
  next
    assume "\<exists>x y fn. w' = set_cache ((set_cache w c x)
           \<lparr>entry_heap := entry_heap (set_cache w c x) @
              [Some (new_entry fn (config_lines_dup ls) c)]\<rparr>) c y"
    then obtain x y fn where w': "w' = set_cache ((set_cache w c x)
           \<lparr>entry_heap := entry_heap (set_cache w c x) @
              [Some (new_entry fn (config_lines_dup ls) c)]\<rparr>) c y" by blast
    have h: "entry_heap w' = entry_heap w @ map Some [new_entry fn (config_lines_dup ls) c]"
      unfolding w' by (simp add: set_cache_def)
    have m: "\<And>m. mmap_at w' m = mmap_at w m"
      unfolding w' by (simp add: mmap_at_def set_cache_def)
    show ?thesis
      using append_ok [OF ok h _ m] by (simp add: new_entry_def)
  qed
qed

lemma open_step:
  assumes ok: "world_ok w"
    and d: "consensus_cache_open gd sn w subdir n = Inr (r, w')"
  shows "world_ok w' \<and> evolves w w'"
proof (cases "sn (gd subdir) n")
  case None
  from open_unbound [of sn gd subdir n, OF None] d show ?thesis by simp
next
  case (Some dd)
  let ?c = "length (cache_heap w)"
  let ?files = "readable dd (storage_dir_list dd)"
  have w': "w' = w\<lparr>entry_heap := entry_heap w @
                     map (\<lambda>(fn, ls). Some (new_entry fn ls ?c)) ?files,
                   cache_heap := cache_heap w @
                     [Some \<lparr>dir = Some dd,
                            entries = Some [length (entry_heap w) ..<
                              length (entry_heap w) + length ?files]\<rparr>],
                   mmaps := mmaps w @ replicate (length ?files) None\<rparr>"
    using open_bound [of sn gd subdir n, OF Some, of w] d by simp
  have h: "entry_heap w' = entry_heap w @ map Some (map (\<lambda>(fn, ls). new_entry fn ls ?c) ?files)"
    unfolding w' by (simp add: case_prod_unfold)
  have m: "\<And>m. mmap_at w' m = mmap_at w m"
    unfolding w' by (auto simp: mmap_at_def nth_append)
  have n: "map_handle e = None \<and> body e = None"
    if "e \<in> set (map (\<lambda>(fn, ls). new_entry fn ls ?c) ?files)" for e
    using that by (auto simp: new_entry_def)
  show ?thesis
    using append_ok [OF ok h n m] by simp
qed

lemma free_loop_step:
  "world_ok w \<Longrightarrow> free_loop w es = Inr r \<Longrightarrow> world_ok r \<and> evolves w r"
proof (induction es arbitrary: w)
  case Nil
  then show ?case by (auto simp: evolves_refl)
next
  case (Cons a es)
  from Cons.prems(2) obtain w1 where
    d: "consensus_cache_entry_decref w (Some a) = Inr w1"
    by (auto split: sum.splits)
  from decref_step [OF Cons.prems(1) d] have ok1: "world_ok w1" and ev1: "evolves w w1"
    by simp_all
  from Cons.prems(2) d obtain ent where e: "entry_at w1 a = Some ent"
    by (auto split: option.splits)
  let ?w2 = "set_entry w1 a (Some (ent\<lparr>in_cache := None\<rparr>))"
  have r: "free_loop ?w2 es = Inr r" using Cons.prems(2) d e by simp
  have ok2: "world_ok ?w2"
    using update_ok [OF ok1 e, of "ent\<lparr>in_cache := None\<rparr>"] by simp
  have ev2: "evolves w1 ?w2"
    using update_evolves [OF e, of "ent\<lparr>in_cache := None\<rparr>"] by simp
  from Cons.IH [OF ok2 r] show ?case
    using evolves_trans [OF evolves_trans [OF ev1 ev2]] by blast
qed

lemma free_step:
  assumes ok: "world_ok w" and d: "consensus_cache_free w p = Inr r"
  shows "world_ok r \<and> evolves w r"
proof (cases p)
  case None
  then show ?thesis using ok d by (auto simp: consensus_cache_free_def evolves_refl)
next
  case (Some c)
  then obtain cache where c: "cache_at w c = Some cache"
    using d by (auto simp: consensus_cache_free_def split: option.splits)
  show ?thesis
  proof (cases "entries cache")
    case None
    then have "r = set_cache w c None"
      using d Some c by (auto simp: consensus_cache_free_def)
    then show ?thesis using ok by (simp add: set_cache_ok set_cache_evolves)
  next
    case (Some es)
    then obtain r1 where r1: "free_loop w es = Inr r1"
      and r: "r = set_cache r1 c None"
      using d \<open>p = Some c\<close> c
      by (auto simp: consensus_cache_free_def split: sum.splits)
    from free_loop_step [OF ok r1] show ?thesis
      unfolding r
      using set_cache_ok [of r1 c None]
        evolves_trans [OF _ set_cache_evolves [of r1 c None], of w]
      by blast
  qed
qed

lemma filter_list_world:
  assumes "consensus_cache_filter_list w lst key val = Inr (l, w')"
  shows "w' = w \<or> w' = tor_bug_occurred w"
  using assms
  by (auto simp: consensus_cache_filter_list_def split: option.splits sum.splits)

lemma find_all_world:
  assumes "consensus_cache_find_all w out c key val = Inr (l, w')"
  shows "w' = w"
  using assms
  by (auto simp: consensus_cache_find_all_def consensus_cache_filter_list_def Let_def
      split: option.splits sum.splits)

lemma find_first_world:
  assumes "consensus_cache_find_first w c key val = Inr (l, w')"
  shows "w' = w"
  using assms find_all_world
  by (auto simp: consensus_cache_find_first_def split: sum.splits prod.splits)

lemma api_step_ok:
  assumes ok: "world_ok w" and s: "api_step w x = Inr w'"
  shows "world_ok w' \<and> evolves w w'"
proof (cases x)
  case (Call_open gd sn subdir n)
  then show ?thesis using s open_step [OF ok] by (auto split: sum.splits)
next
  case (Call_free c)
  then show ?thesis using s free_step [OF ok] by simp
next
  case (Call_add c ls data)
  then show ?thesis using s add_step [OF ok] by (auto split: sum.splits)
next
  case (Call_find_first c key val)
  then obtain l where "consensus_cache_find_first w c key val = Inr (l, w')"
    using s by (auto split: sum.splits)
  from find_first_world [OF this] show ?thesis
    using ok by (simp add: evolves_refl)
next
  case (Call_find_all out c key val)
  then obtain l where "consensus_cache_find_all w out c key val = Inr (l, w')"
    using s by (auto split: sum.splits)
  from find_all_world [OF this] show ?thesis
    using ok by (simp add: evolves_refl)
next
  case (Call_filter_list lst key val)
  then obtain l where "consensus_cache_filter_list w lst key val = Inr (l, w')"
    using s by (auto split: sum.splits)
  from filter_list_world [OF this] show ?thesis
    using ok by (auto simp: evolves_refl bug_ok bug_evolves)
next
  case (Call_incref a)
  then show ?thesis using s incref_step [OF ok] by simp
next
  case (Call_decref a)
  then show ?thesis using s decref_step [OF ok] by simp
next
  case (Call_mark_for_removal a)
  then show ?thesis using s mark_step [OF ok] by simp
next
  case (Call_get_body a)
  then show ?thesis using s get_body_step [OF ok] by (auto split: sum.splits)
qed

lemma run_ok:
  "world_ok w \<Longrightarrow> run w calls = Inr w' \<Longrightarrow> world_ok w' \<and> evolves w w'"
proof (induction calls arbitrary: w)
  case Nil
  then show ?case by (simp add: evolves_refl)
next
  case (Cons x calls)
  from Cons.prems(2) obtain w1 where s: "api_step w x = Inr w1" and r: "run w1 calls = Inr w'"
    by (auto split: sum.splits)
  from api_step_ok [OF Cons.prems(1) s] have ok1: "world_ok w1" and ev1: "evolves w w1"
    by simp_all
  from Cons.IH [OF ok1 r] show ?case
    using evolves_trans [OF ev1] by blast
qed

lemma empty_world_ok: "world_ok empty_world"
  by (simp add: world_ok_def entry_at_def empty_world_def)

lemma free_iteration:
  assumes ok: "world_ok w" and eb: "entry_at w b = Some eb" and held: "2 \<le> refcnt eb"
  shows "\<exists>w2. free_loop w (b # es) = free_loop w2 es \<and> world_ok w2 \<and>
           (\<forall>c. c \<noteq> b \<longrightarrow> entry_at w2 c = entry_at w c) \<and>
           entry_at w2 b = Some (eb\<lparr>refcnt := refcnt eb - 1, in_cache := None\<rparr>)"
proof -
  let ?e1 = "eb\<lparr>refcnt := refcnt eb - 1\<rparr>"
  let ?w1 = "set_entry w b (Some ?e1)"
  let ?w2 = "set_entry ?w1 b (Some (?e1\<lparr>in_cache := None\<rparr>))"
  have d: "consensus_cache_entry_decref w (Some b) = Inr ?w1"
    using decref_result [OF eb] held by simp
  from decref_step [OF ok d] have ok1: "world_ok ?w1" by simp
  have lt: "b < length (entry_heap w)" using eb by (rule entry_at_live_lt)
  have e1: "entry_at ?w1 b = Some ?e1" using lt by (simp add: entry_at_set_entry)
  have l: "free_loop w (b # es) = free_loop ?w2 es"
    using d e1 by simp
  have ok2: "world_ok ?w2"
    using update_ok [OF ok1 e1, of "?e1\<lparr>in_cache := None\<rparr>"] by simp
  have other: "\<forall>c. c \<noteq> b \<longrightarrow> entry_at ?w2 c = entry_at w c"
    by (simp add: entry_at_set_entry)
  have lt1: "b < length (entry_heap ?w1)" using e1 by (rule entry_at_live_lt)
  have "entry_at ?w2 b = Some (eb\<lparr>refcnt := refcnt eb - 1, in_cache := None\<rparr>)"
    using lt1 by (simp add: entry_at_set_entry)
  with l ok2 other show ?thesis by blast
qed

lemma free_loop_held:
  "world_ok w \<Longrightarrow> distinct es \<Longrightarrow>
   \<forall>b\<in>set es. \<exists>eb. entry_at w b = Some eb \<and> 2 \<le> refcnt eb \<Longrightarrow>
   entry_at w a = Some ent \<Longrightarrow>
   \<exists>r. free_loop w es = Inr r \<and>
       entry_at r a =
         Some (if a \<in> set es then ent\<lparr>refcnt := refcnt ent - 1, in_cache := None\<rparr> else ent)"
proof (induction es arbitrary: w ent)
  case Nil
  then show ?case by simp
next
  case (Cons b es)
  from Cons.prems(3) obtain eb where eb: "entry_at w b = Some eb" and hb: "2 \<le> refcnt eb"
    by auto
  from free_iteration [OF Cons.prems(1) eb hb, of es] obtain w2 where
    l: "free_loop w (b # es) = free_loop w2 es" and ok2: "world_ok w2"
    and other: "\<forall>c. c \<noteq> b \<longrightarrow> entry_at w2 c = entry_at w c"
    and held: "entry_at w2 b = Some (eb\<lparr>refcnt := refcnt eb - 1, in_cache := None\<rparr>)"
    by blast
  have dist: "distinct es" and nb: "b \<notin> set es" using Cons.prems(2) by simp_all
  have live2: "\<forall>c\<in>set es. \<exists>ec. entry_at w2 c = Some ec \<and> 2 \<le> refcnt ec"
  proof
    fix c assume c: "c \<in> set es"
    then have "c \<noteq> b" using nb by auto
    then have "entry_at w2 c = entry_at w c" using other by simp
    then show "\<exists>ec. entry_at w2 c = Some ec \<and> 2 \<le> refcnt ec"
      using Cons.prems(3) c by simp
  qed
  show ?case
  proof (cases "a = b")
    case True
    then have "eb = ent" using eb Cons.prems(4) by simp
    then have a2: "entry_at w2 a =
        Some (ent\<lparr>refcnt := refcnt ent - 1, in_cache := None\<rparr>)"
      using held True by simp
    have "a \<notin> set es" using True nb by simp
    with Cons.IH [OF ok2 dist live2 a2] l True show ?thesis by simp
  next
    case False
    then have a2: "entry_at w2 a = Some ent" using other Cons.prems(4) by simp
    from Cons.IH [OF ok2 dist live2 a2] l False show ?thesis by simp
  qed
qed

text \<open>
  An entry that only the cache holds (a reference count of 1) is freed by the
  \<^verbatim>\<open>decref\<close> of the loop, and the assignment that follows writes to it.
\<close>

lemma free_loop_freed:
  "a \<in> set es \<Longrightarrow> entry_at w a = Some ent \<Longrightarrow> refcnt ent = 1 \<Longrightarrow>
   free_loop w es = Inl Dangling_entry"
proof (induction es arbitrary: w)
  case Nil
  then show ?case by simp
next
  case (Cons b es)
  show ?case
  proof (cases "entry_at w b")
    case None
    then show ?thesis by (simp add: consensus_cache_entry_decref_def)
  next
    case (Some eb)
    note eb = this
    let ?w1 = "if refcnt eb \<le> 0 then tor_bug_occurred w
               else if 1 < refcnt eb then set_entry w b (Some (eb\<lparr>refcnt := refcnt eb - 1\<rparr>))
               else set_entry (case map_handle eb of
                                 Some m \<Rightarrow> tor_munmap_file w m
                               | None \<Rightarrow> w) b None"
    have d: "consensus_cache_entry_decref w (Some b) = Inr ?w1"
      by (rule decref_result [OF eb])
    have lt: "b < length (entry_heap w)" using eb by (rule entry_at_live_lt)
    show ?thesis
    proof (cases "a = b")
      case True
      then have "refcnt eb = 1" using eb Cons.prems(2,3) by simp
      then have "entry_at ?w1 b = None"
        using lt by (simp add: entry_at_set_entry tor_munmap_file_def split: option.splits)
      then show ?thesis using d by simp
    next
      case False
      have a1: "entry_at ?w1 a = Some ent"
        using Cons.prems(2) False
        by (auto simp: entry_at_def set_entry_def tor_munmap_file_def
            tor_bug_occurred_def split: option.splits if_splits)
      show ?thesis
      proof (cases "entry_at ?w1 b")
        case None
        then show ?thesis using d by simp
      next
        case (Some e1)
        note e1 = this
        let ?w2 = "set_entry ?w1 b (Some (e1\<lparr>in_cache := None\<rparr>))"
        have a2: "entry_at ?w2 a = Some ent"
          using a1 False by (simp only: entry_at_set_entry) simp
        have "a \<in> set es" using Cons.prems(1) False by simp
        from Cons.IH [OF this a2 Cons.prems(3)] have "free_loop ?w2 es = Inl Dangling_entry" .
        then show ?thesis using d e1 by (simp only: free_loop.simps) simp
      qed
    qed
  qed
qed

lemma deref_iff:
  assumes "world_ok w" and "entry_at w b = Some e"
  shows "body_bytes w (body e, bodylen e) \<noteq> None \<longleftrightarrow> map_handle e \<noteq> None"
proof -
  have "entry_ok w b e" using assms by (simp add: world_ok_def)
  then show ?thesis
    by (cases "map_handle e") (auto simp: entry_ok_def body_bytes_def)
qed

lemma get_body_mapped:
  assumes "entry_at w a = Some e" and "map_handle e = Some m"
  shows "consensus_cache_entry_get_body w a = Inr (Some (body e, bodylen e), w)"
  using assms by (simp add: consensus_cache_entry_get_body_def)

lemma get_body_unmapped_orphan:
  assumes "entry_at w a = Some e" and "map_handle e = None" and "in_cache e = None"
  shows "consensus_cache_entry_get_body w a = Inr (None, w)"
  using assms by (simp add: consensus_cache_entry_get_body_def)

lemma get_body_success:
  assumes "consensus_cache_entry_get_body w a = Inr (Some (p, n), w1)"
  shows "\<exists>e1 m. entry_at w1 a = Some e1 \<and> map_handle e1 = Some m \<and> body e1 = p \<and>
           bodylen e1 = n"
  using assms
  by (auto simp: consensus_cache_entry_get_body_def
      split: option.splits if_splits sum.splits)

lemma decref_cache_heap:
  "consensus_cache_entry_decref w p = Inr w' \<Longrightarrow> cache_heap w' = cache_heap w"
  by (auto simp: consensus_cache_entry_decref_def Let_def tor_bug_occurred_def set_entry_def
      tor_munmap_file_def split: option.splits if_splits)

lemma free_loop_cache_heap:
  "free_loop w es = Inr r \<Longrightarrow> cache_heap r = cache_heap w"
proof (induction es arbitrary: w)
  case Nil
  then show ?case by auto
next
  case (Cons a es)
  from Cons.prems obtain w1 where
    d: "consensus_cache_entry_decref w (Some a) = Inr w1"
    by (auto split: sum.splits)
  have c1: "cache_heap w1 = cache_heap w" using d by (rule decref_cache_heap)
  from Cons.prems d obtain ent where e: "entry_at w1 a = Some ent"
    by (auto split: option.splits)
  then have "free_loop (set_entry w1 a (Some (ent\<lparr>in_cache := None\<rparr>))) es = Inr r"
    using Cons.prems d by simp
  from Cons.IH [OF this] c1 show ?case by (simp add: set_entry_def)
qed

lemma evolves_mapped:
  assumes ev: "evolves w w'" and e: "entry_at w a = Some e" and e': "entry_at w' a = Some e'"
    and m: "map_handle e = Some m"
  shows "map_handle e' = Some m" and "body e' = body e" and "bodylen e' = bodylen e"
    and "mmap_at w' m = mmap_at w m"
proof -
  have "a < length (entry_heap w)" using e by (rule entry_at_live_lt)
  with ev e' obtain e0 where e0: "entry_at w a = Some e0"
    "\<forall>m. map_handle e0 = Some m \<longrightarrow>
       map_handle e' = Some m \<and> body e' = body e0 \<and> bodylen e' = bodylen e0 \<and>
       mmap_at w' m = mmap_at w m"
    unfolding evolves_def by blast
  from e0(1) e have "e0 = e" by simp
  with e0(2) m show "map_handle e' = Some m" and "body e' = body e"
    and "bodylen e' = bodylen e" and "mmap_at w' m = mmap_at w m"
    by simp_all
qed

lemma held_world_live:
  assumes "entry_at held_world b = Some eb"
  shows "b = 0 \<or> b = 1 \<or> b = 2 \<or> b = 3"
proof -
  have "b < 4" using entry_at_live_lt [OF assms] by (simp add: held_world_def)
  then show ?thesis by auto
qed

lemma held_world_ok: "world_ok held_world"
  unfolding world_ok_def
proof (intro allI impI)
  fix a e
  assume a: "entry_at held_world a = Some e"
  have only: "b = 0" if "entry_at held_world b = Some eb" "map_handle eb = Some m" for b eb m
    using held_world_live [OF that(1)] that held_entry_at
    by (auto simp: new_entry_def)
  have m0: "mmap_at held_world 0 = Some [1, 2, 3]"
    by (simp add: mmap_at_def held_world_def)
  from held_world_live [OF a] show "entry_ok held_world a e"
  proof (elim disjE)
    assume "a = 0"
    then have "e = (new_entry ''0'' [(''type'', ''consensus''), (''flavor'', ''ns'')] 0)
             \<lparr>refcnt := 2, map_handle := Some 0, bodylen := 3, body := Some 0\<rparr>"
      using a held_entry_at(1) by simp
    then show ?thesis
      using \<open>a = 0\<close> m0 only by (auto simp: entry_ok_def new_entry_def)
  next
    assume "a = 1"
    then show ?thesis using a held_entry_at(2) by (auto simp: entry_ok_def new_entry_def)
  next
    assume "a = 2"
    then show ?thesis using a held_entry_at(3) by (auto simp: entry_ok_def new_entry_def)
  next
    assume "a = 3"
    then show ?thesis using a held_entry_at(4) by (auto simp: entry_ok_def new_entry_def)
  qed
qed

lemma held_get_body:
  "consensus_cache_entry_get_body held_world 1 = Inr (Some (Some 1, 2), mapped_world)"
  by (simp add: consensus_cache_entry_get_body_def consensus_cache_entry_map_def
      storage_dir_map_labelled_def new_entry_def roomy_dir_def example_dir_def
      entry_at_def cache_at_def set_entry_def held_world_def mapped_world_def Let_def)

lemma mapped_run:
  "\<exists>w2. run mapped_world
           [Call_incref 1, Call_incref 2, Call_free (Some 0), Call_decref (Some 1),
            Call_decref (Some 2)] = Inr w2 \<and>
         entry_at w2 1 \<noteq> None \<and> cache_at w2 0 = None \<and> entry_at w2 2 = None"
  by (simp add: consensus_cache_entry_incref_def consensus_cache_free_def
      consensus_cache_entry_decref_def INT_MAX_def new_entry_def
      entry_at_def cache_at_def set_entry_def set_cache_def tor_munmap_file_def
      mapped_world_def Let_def)

subsection \<open>Closing a cache\<close>

text \<open>
  When a caller holds every entry of the cache (each has a reference count of at least
  two), closing the cache frees no entry, and an entry of the cache is afterwards as
  the specification has it: allocated, with the same labels, its back-reference to the
  cache cleared; if it had no mapping, \<open>get_body\<close> on it fails (the result for \<open>-1\<close>); if
  it had a mapping, \<open>get_body\<close> returns the same body pointer and length, and the bytes
  there are still mapped and the same.
\<close>

lemma close_of_held_entries:
  assumes ok: "world_ok w" and c: "cache_at w c = Some cache" and es: "entries cache = Some es"
    and dist: "distinct es"
    and all_held: "\<forall>b\<in>set es. \<exists>eb. entry_at w b = Some eb \<and> 2 \<le> refcnt eb"
    and mem: "a \<in> set es" and ent: "entry_at w a = Some ent"
  shows "\<exists>r ent'. consensus_cache_free w (Some c) = Inr r \<and>
           cache_at r c = None \<and>
           entry_at r a = Some ent' \<and>
           ent' = ent\<lparr>refcnt := refcnt ent - 1, in_cache := None\<rparr> \<and>
           consensus_cache_entry_get_labels ent' = consensus_cache_entry_get_labels ent \<and>
           (\<forall>key. consensus_cache_entry_get_value ent' key =
                  consensus_cache_entry_get_value ent key) \<and>
           (map_handle ent = None \<longrightarrow>
              consensus_cache_entry_get_body r a = Inr (None, r)) \<and>
           (map_handle ent \<noteq> None \<longrightarrow>
              consensus_cache_entry_get_body w a = Inr (Some (body ent, bodylen ent), w) \<and>
              consensus_cache_entry_get_body r a = Inr (Some (body ent, bodylen ent), r) \<and>
              body_bytes w (body ent, bodylen ent) \<noteq> None \<and>
              body_bytes r (body ent, bodylen ent) = body_bytes w (body ent, bodylen ent))"
proof -
  let ?ent' = "ent\<lparr>refcnt := refcnt ent - 1, in_cache := None\<rparr>"
  from free_loop_held [OF ok dist all_held ent] mem obtain r1 where
    r1: "free_loop w es = Inr r1" and a1: "entry_at r1 a = Some ?ent'"
    by auto
  let ?r = "set_cache r1 c None"
  have f: "consensus_cache_free w (Some c) = Inr ?r"
    using c es r1 by (simp add: consensus_cache_free_def)
  have lt: "c < length (cache_heap w)" using c by (rule cache_at_live_lt)
  have gone: "cache_at ?r c = None"
    using lt free_loop_cache_heap [OF r1] by (simp add: cache_at_set_cache)
  have a': "entry_at ?r a = Some ?ent'"
    using a1 by simp
  have lab: "consensus_cache_entry_get_labels ?ent' = consensus_cache_entry_get_labels ent"
    by (simp add: consensus_cache_entry_get_labels_def)
  have val: "\<forall>key. consensus_cache_entry_get_value ?ent' key =
                  consensus_cache_entry_get_value ent key"
    by (simp add: consensus_cache_entry_get_value_def)
  have un: "map_handle ent = None \<longrightarrow>
              consensus_cache_entry_get_body ?r a = Inr (None, ?r)"
    using get_body_unmapped_orphan [OF a'] by simp
  from free_step [OF ok f] have ev: "evolves w ?r" by simp
  have mp: "map_handle ent \<noteq> None \<longrightarrow>
              consensus_cache_entry_get_body w a = Inr (Some (body ent, bodylen ent), w) \<and>
              consensus_cache_entry_get_body ?r a = Inr (Some (body ent, bodylen ent), ?r) \<and>
              body_bytes w (body ent, bodylen ent) \<noteq> None \<and>
              body_bytes ?r (body ent, bodylen ent) = body_bytes w (body ent, bodylen ent)"
  proof
    assume "map_handle ent \<noteq> None"
    then obtain m where m: "map_handle ent = Some m" by auto
    have 1: "consensus_cache_entry_get_body w a = Inr (Some (body ent, bodylen ent), w)"
      by (rule get_body_mapped [OF ent m])
    have 2: "consensus_cache_entry_get_body ?r a = Inr (Some (body ent, bodylen ent), ?r)"
      using get_body_mapped [OF a', of m] m by simp
    have 3: "body_bytes w (body ent, bodylen ent) \<noteq> None"
      using deref_iff [OF ok ent] m by simp
    have "entry_ok w a ent" using ok ent by (simp add: world_ok_def)
    then have b: "body ent = Some m" using m by (simp add: entry_ok_def)
    have "mmap_at ?r m = mmap_at w m"
      by (rule evolves_mapped(4) [OF ev ent a' m])
    then have 4: "body_bytes ?r (body ent, bodylen ent) =
                body_bytes w (body ent, bodylen ent)"
      using b by (simp add: body_bytes_def)
    show "consensus_cache_entry_get_body w a = Inr (Some (body ent, bodylen ent), w) \<and>
              consensus_cache_entry_get_body ?r a = Inr (Some (body ent, bodylen ent), ?r) \<and>
              body_bytes w (body ent, bodylen ent) \<noteq> None \<and>
              body_bytes ?r (body ent, bodylen ent) = body_bytes w (body ent, bodylen ent)"
      using 1 2 3 4 by simp
  qed
  show ?thesis
    apply (rule exI [of _ ?r])
    apply (rule exI [of _ ?ent'])
    apply (intro conjI)
           apply (rule f)
          apply (rule gone)
         apply (rule a')
        apply (rule refl)
       apply (rule lab)
      apply (rule val)
     apply (rule un)
    apply (rule mp)
    done
qed

text \<open>
  Claim C6. The specification has an entry that a caller holds stay valid when the
  cache is closed. The code does not guarantee it: whenever the cache lists an entry
  that only the cache holds (a reference count of 1), the loop of
  \<^verbatim>\<open>consensus_cache_free\<close> frees that entry by its \<^verbatim>\<open>decref\<close> and then assigns
  \<^verbatim>\<open>ent->in_cache\<close> in the freed entry. The close ends in the fault \<open>Dangling_entry\<close>
  and leaves no defined state, whatever other entries a caller holds.
\<close>

theorem close_writes_to_freed_entry:
  assumes "cache_at w c = Some cache" and "entries cache = Some es"
    and "a \<in> set es" and "entry_at w a = Some ent" and "refcnt ent = 1"
  shows "consensus_cache_free w (Some c) = Inl Dangling_entry"
  using assms free_loop_freed [of a es w ent]
  by (simp add: consensus_cache_free_def)

theorem close_writes_to_freed_entry_witness:
  "cache_at held_world 0 = Some \<lparr>dir = Some roomy_dir, entries = Some [0, 1, 2]\<rparr> \<and>
   (\<exists>e0. entry_at held_world 0 = Some e0 \<and> refcnt e0 = 2) \<and>
   (\<exists>e2. entry_at held_world 2 = Some e2 \<and> refcnt e2 = 1) \<and>
   consensus_cache_free held_world (Some 0) = Inl Dangling_entry"
proof -
  have en: "entries \<lparr>dir = Some roomy_dir, entries = Some [0, 1, 2]\<rparr> = Some [0, 1, 2]"
    by simp
  have m: "(2 :: nat) \<in> set [0, 1, 2]" by simp
  have r: "refcnt (new_entry ''2'' [(''flavor'', ''ns''), (''flavor'', ''microdesc'')] 0) = 1"
    by (simp add: new_entry_def)
  have f: "consensus_cache_free held_world (Some 0) = Inl Dangling_entry"
    by (rule close_writes_to_freed_entry [OF held_cache en m held_entry_at(3) r])
  have 0: "\<exists>e0. entry_at held_world 0 = Some e0 \<and> refcnt e0 = 2"
    using held_entry_at(1) by simp
  have 2: "\<exists>e2. entry_at held_world 2 = Some e2 \<and> refcnt e2 = 1"
    using held_entry_at(3) r by simp
  show ?thesis using held_cache 0 2 f by blast
qed

subsection \<open>The body of an entry\<close>

text \<open>
  Claim C2. Once \<open>get_body\<close> has succeeded on an entry, then after any sequence of calls
  that leaves the entry allocated, \<open>get_body\<close> on it succeeds again, returns the same
  body pointer and length and changes nothing (it maps nothing again); the entry still
  has the mapping it had, and the bytes at the pointer are the same. In every world so
  reached, the bytes of an entry's body can be read exactly when the entry has a
  mapping.
\<close>

theorem get_body_is_stable:
  assumes ok: "world_ok w"
    and first: "consensus_cache_entry_get_body w a = Inr (Some (p, n), w1)"
    and later: "run w1 calls = Inr w2"
    and alive: "entry_at w2 a \<noteq> None"
  shows "consensus_cache_entry_get_body w2 a = Inr (Some (p, n), w2) \<and>
         (\<exists>e1 e2 m. entry_at w1 a = Some e1 \<and> entry_at w2 a = Some e2 \<and>
            map_handle e1 = Some m \<and> map_handle e2 = Some m) \<and>
         (\<exists>bs. body_bytes w1 (p, n) = Some bs \<and> body_bytes w2 (p, n) = Some bs) \<and>
         (\<forall>b e. entry_at w2 b = Some e \<longrightarrow>
            (body_bytes w2 (body e, bodylen e) \<noteq> None \<longleftrightarrow> map_handle e \<noteq> None))"
proof -
  from get_body_step [OF ok first] have ok1: "world_ok w1" by simp
  from get_body_success [OF first] obtain e1 m where
    e1: "entry_at w1 a = Some e1" and m: "map_handle e1 = Some m"
    and p: "body e1 = p" and n: "bodylen e1 = n" by blast
  from run_ok [OF ok1 later] have ok2: "world_ok w2" and ev: "evolves w1 w2" by simp_all
  from alive obtain e2 where e2: "entry_at w2 a = Some e2" by auto
  note k = evolves_mapped [OF ev e1 e2 m]
  have 1: "consensus_cache_entry_get_body w2 a = Inr (Some (p, n), w2)"
    using get_body_mapped [OF e2 k(1)] k p n by simp
  have "entry_ok w1 a e1" using ok1 e1 by (simp add: world_ok_def)
  then obtain bs where b: "body e1 = Some m" "mmap_at w1 m = Some bs" "bodylen e1 = length bs"
    using m by (auto simp: entry_ok_def)
  have pm: "p = Some m" using b(1) p by simp
  have nl: "n = length bs" using b(3) n by simp
  have 3: "body_bytes w1 (p, n) = Some bs \<and> body_bytes w2 (p, n) = Some bs"
    using b(2) k(4) by (simp add: body_bytes_def pm nl)
  have 4: "\<forall>b e. entry_at w2 b = Some e \<longrightarrow>
            (body_bytes w2 (body e, bodylen e) \<noteq> None \<longleftrightarrow> map_handle e \<noteq> None)"
    using deref_iff [OF ok2] by blast
  show ?thesis
    using 1 e1 e2 m k(1) 3 4 by blast
qed

theorem get_body_is_stable_witness:
  "world_ok held_world \<and>
   consensus_cache_entry_get_body held_world 1 = Inr (Some (Some 1, 2), mapped_world) \<and>
   (\<exists>w2. run mapped_world
            [Call_incref 1, Call_incref 2, Call_free (Some 0), Call_decref (Some 1),
             Call_decref (Some 2)] = Inr w2 \<and>
      entry_at w2 1 \<noteq> None \<and> cache_at w2 0 = None \<and>
      consensus_cache_entry_get_body w2 1 = Inr (Some (Some 1, 2), w2) \<and>
      body_bytes w2 (Some 1, 2) = Some [4, 5])"
proof -
  from mapped_run obtain w2 where
    r: "run mapped_world
          [Call_incref 1, Call_incref 2, Call_free (Some 0), Call_decref (Some 1),
           Call_decref (Some 2)] = Inr w2"
    and a: "entry_at w2 1 \<noteq> None" and c: "cache_at w2 0 = None"
    by blast
  note t = get_body_is_stable [OF held_world_ok held_get_body r a]
  have b1: "body_bytes mapped_world (Some 1, 2) = Some [4, 5]"
    by (simp add: body_bytes_def mmap_at_def mapped_world_def)
  from t obtain bs where "body_bytes mapped_world (Some 1, 2) = Some bs"
    "body_bytes w2 (Some 1, 2) = Some bs" by blast
  with b1 have b2: "body_bytes w2 (Some 1, 2) = Some [4, 5]" by simp
  from t have g: "consensus_cache_entry_get_body w2 1 = Inr (Some (Some 1, 2), w2)" by blast
  show ?thesis
    using held_world_ok held_get_body r a c g b2 by blast
qed

end
